theory Spec2Isabelle
  imports Main "HOL-Library.Char_ord" "HOL-Library.List_Lexorder" "HOL-Library.Multiset"
begin

section \<open>The circuit breaker of the HTTP server\<close>

text \<open>
  The class \<open>CircuitBreaker\<close> of the HTTP/SSE server. Its fields are the record below;
  \<open>Date.now()\<close> is read from an explicit clock value (milliseconds, an integer).
  The wrapped operation \<open>fn\<close> is a function from the time it is started at to its outcome
  (\<open>Inl\<close> the message of the error it throws, \<open>Inr\<close> the value it resolves to) and the
  time at which it settles, which is the time the \<open>catch\<close> block reads.
  One call of \<open>execute\<close> is modelled from its start to its end; the part before
  \<open>await fn()\<close> is \<open>admit\<close>, the part after it is \<open>settle\<close>.
\<close>

datatype breaker_state = CLOSED | OPEN | HALF_OPEN

record circuit_breaker =
  failures :: nat
  threshold :: nat
  timeout :: int
  state :: breaker_state
  nextAttempt :: int

type_synonym 'a operation = "int \<Rightarrow> (string + 'a) \<times> int"

definition CIRCUIT_BREAKER_THRESHOLD :: nat where
  "CIRCUIT_BREAKER_THRESHOLD = 5"

definition CIRCUIT_BREAKER_TIMEOUT_MS :: int where
  "CIRCUIT_BREAKER_TIMEOUT_MS = 60000"

definition new_breaker :: "nat \<Rightarrow> int \<Rightarrow> int \<Rightarrow> circuit_breaker" where
  "new_breaker thr tmo now =
     \<lparr>failures = 0, threshold = thr, timeout = tmo, state = CLOSED, nextAttempt = now\<rparr>"

definition unavailable :: string where
  "unavailable = ''Service temporarily unavailable. Please try again later.''"

definition admit :: "circuit_breaker \<Rightarrow> int \<Rightarrow> string + circuit_breaker" where
  "admit cb now =
     (if state cb = OPEN then
        (if now < nextAttempt cb then Inl unavailable
         else Inr (cb\<lparr>state := HALF_OPEN\<rparr>))
      else Inr cb)"

definition settle :: "circuit_breaker \<Rightarrow> string + 'a \<Rightarrow> int \<Rightarrow> (string + 'a) \<times> circuit_breaker" where
  "settle cb outcome now =
     (case outcome of
        Inr result \<Rightarrow>
          (Inr result,
           if state cb = HALF_OPEN then cb\<lparr>state := CLOSED, failures := 0\<rparr> else cb)
      | Inl err \<Rightarrow>
          (let cb1 = cb\<lparr>failures := failures cb + 1\<rparr> in
           (Inl err,
            if failures cb1 \<ge> threshold cb1
            then cb1\<lparr>state := OPEN, nextAttempt := now + timeout cb1\<rparr>
            else cb1)))"

definition execute :: "circuit_breaker \<Rightarrow> int \<Rightarrow> 'a operation \<Rightarrow> (string + 'a) \<times> circuit_breaker" where
  "execute cb now fn =
     (case admit cb now of
        Inl err \<Rightarrow> (Inl err, cb)
      | Inr cb1 \<Rightarrow> settle cb1 (fst (fn now)) (snd (fn now)))"

definition reset :: "circuit_breaker \<Rightarrow> circuit_breaker" where
  "reset cb = cb\<lparr>failures := 0, state := CLOSED\<rparr>"

text \<open>The handler of \<open>POST /reset\<close>: the new breaker and the message of the response.\<close>

definition post_reset :: "circuit_breaker \<Rightarrow> circuit_breaker \<times> string" where
  "post_reset cb =
     (if state cb = OPEN then (reset cb, ''Circuit breaker reset to CLOSED.'')
      else (cb, ''Circuit breaker already CLOSED.''))"

text \<open>A sequence of calls, each one finished before the next starts: the time of the call
  and the wrapped operation.\<close>

fun run :: "circuit_breaker \<Rightarrow> (int \<times> 'a operation) list \<Rightarrow> circuit_breaker" where
  "run cb [] = cb"
| "run cb (c # cs) = run (snd (execute cb (fst c) (snd c))) cs"

definition failed :: "int \<times> 'a operation \<Rightarrow> bool" where
  "failed c = isl (fst ((snd c) (fst c)))"

definition failing :: "unit operation" where
  "failing = (\<lambda>t. (Inl ''boom'', t + 1))"

definition succeeding :: "unit operation" where
  "succeeding = (\<lambda>t. (Inr (), t + 1))"

text \<open>A breaker with the default settings after five failed calls in a row.\<close>

definition opened :: circuit_breaker where
  "opened = run (new_breaker 5 60000 0)
     [(1, failing), (2, failing), (3, failing), (4, failing), (5, failing)]"


section \<open>Strings\<close>

text \<open>
  Strings are lists of characters, read as code units in the ASCII range; the functions
  below are the JavaScript string methods the search engine calls, on that range.
  \<open>localeCompare\<close> is the comparison by code units, which is what the collation gives
  on the ISO dates (\<open>YYYY-MM-DD\<close>) it is applied to.
\<close>

definition is_space :: "char \<Rightarrow> bool" where
  "is_space c = (c \<in> {CHR 0x09, CHR 0x0A, CHR 0x0B, CHR 0x0C, CHR 0x0D, CHR 0x20})"

definition lower_char :: "char \<Rightarrow> char" where
  "lower_char c =
     (case map_of (zip ''ABCDEFGHIJKLMNOPQRSTUVWXYZ'' ''abcdefghijklmnopqrstuvwxyz'') c of
        None \<Rightarrow> c
      | Some l \<Rightarrow> l)"

definition toLowerCase :: "string \<Rightarrow> string" where
  "toLowerCase s = map lower_char s"

primrec startsWith :: "string \<Rightarrow> string \<Rightarrow> bool" where
  "startsWith s [] = True"
| "startsWith s (p # ps) = (case s of [] \<Rightarrow> False | c # cs \<Rightarrow> c = p \<and> startsWith cs ps)"

primrec str_includes :: "string \<Rightarrow> string \<Rightarrow> bool" where
  "str_includes [] sub = (sub = [])"
| "str_includes (c # cs) sub = (startsWith (c # cs) sub \<or> str_includes cs sub)"

definition trim :: "string \<Rightarrow> string" where
  "trim s = rev (dropWhile is_space (rev (dropWhile is_space s)))"

text \<open>\<open>s.split(/\s+/)\<close>: the flag says that the scan is inside a run of white space.\<close>

fun splitSpaces :: "bool \<Rightarrow> string \<Rightarrow> string \<Rightarrow> string list" where
  "splitSpaces inrun cur [] = [cur]"
| "splitSpaces inrun cur (c # cs) =
     (if is_space c then
        (if inrun then splitSpaces True [] cs else cur # splitSpaces True [] cs)
      else splitSpaces False (cur @ [c]) cs)"

text \<open>\<open>s.split(/[|,;\n]/)\<close>, with the separator set as a predicate.\<close>

fun splitOn :: "(char \<Rightarrow> bool) \<Rightarrow> string \<Rightarrow> string \<Rightarrow> string list" where
  "splitOn sep cur [] = [cur]"
| "splitOn sep cur (c # cs) =
     (if sep c then cur # splitOn sep [] cs else splitOn sep (cur @ [c]) cs)"

definition is_term_separator :: "char \<Rightarrow> bool" where
  "is_term_separator c = (c \<in> {CHR ''|'', CHR '','', CHR '';'', CHR 0x0A})"

text \<open>\<open>s.split(/\r?\n/)\<close>.\<close>

fun splitLines :: "string \<Rightarrow> string \<Rightarrow> string list" where
  "splitLines cur [] = [cur]"
| "splitLines cur [c] = (if c = CHR 0x0A then [cur, []] else [cur @ [c]])"
| "splitLines cur (c # d # ds) =
     (if c = CHR 0x0A then cur # splitLines [] (d # ds)
      else if c = CHR 0x0D \<and> d = CHR 0x0A then cur # splitLines [] ds
      else splitLines (cur @ [c]) (d # ds))"

fun join :: "string \<Rightarrow> string list \<Rightarrow> string" where
  "join sep [] = []"
| "join sep [x] = x"
| "join sep (x # y # ys) = x @ sep @ join sep (y # ys)"

definition localeCompare :: "string \<Rightarrow> string \<Rightarrow> int" where
  "localeCompare a b = (if a < b then - 1 else if a = b then 0 else 1)"

text \<open>\<open>xs.slice(start, stop)\<close>: a negative index counts from the end.\<close>

definition slice :: "'a list \<Rightarrow> int \<Rightarrow> int \<Rightarrow> 'a list" where
  "slice xs start stop =
     (let n = int (length xs);
          k = (if start < 0 then max (n + start) 0 else min start n);
          f = (if stop < 0 then max (n + stop) 0 else min stop n)
      in take (nat (f - k)) (drop (nat k) xs))"

text \<open>
  \<open>xs.sort(cmp)\<close>. The sort of the language is stable, and for a comparator that is
  a total preorder its result is the one stable sorted arrangement of the array, which
  insertion from the right computes.
\<close>

fun insert_by :: "('a \<Rightarrow> 'a \<Rightarrow> int) \<Rightarrow> 'a \<Rightarrow> 'a list \<Rightarrow> 'a list" where
  "insert_by cmp x [] = [x]"
| "insert_by cmp x (y # ys) = (if cmp x y \<le> 0 then x # y # ys else y # insert_by cmp x ys)"

definition sort_by :: "('a \<Rightarrow> 'a \<Rightarrow> int) \<Rightarrow> 'a list \<Rightarrow> 'a list" where
  "sort_by cmp xs = foldr (insert_by cmp) xs []"

text \<open>A comparator that is a total preorder on the elements it is given.\<close>

definition consistent :: "'a set \<Rightarrow> ('a \<Rightarrow> 'a \<Rightarrow> int) \<Rightarrow> bool" where
  "consistent S cmp =
     ((\<forall>x \<in> S. \<forall>y \<in> S. cmp x y \<le> 0 \<or> cmp y x \<le> 0) \<and>
      (\<forall>x \<in> S. \<forall>y \<in> S. \<forall>z \<in> S. cmp x y \<le> 0 \<longrightarrow> cmp y z \<le> 0 \<longrightarrow> cmp x z \<le> 0))"

section \<open>Lexical distance\<close>

text \<open>
  \<open>levenshteinDistance(a, b)\<close>. The matrix is an array of rows; a row grows by one
  cell when the cell just past its end is assigned, which is the only kind of assignment
  the loops make after the first column is set up.
\<close>

type_synonym matrix = "nat list list"

definition assign :: "nat list \<Rightarrow> nat \<Rightarrow> nat \<Rightarrow> nat list" where
  "assign row j v = (if j < length row then row[j := v] else row @ [v])"

definition setCell :: "matrix \<Rightarrow> nat \<Rightarrow> nat \<Rightarrow> nat \<Rightarrow> matrix" where
  "setCell m i j v = m[i := assign (m ! i) j v]"

definition initColumn :: "nat \<Rightarrow> matrix" where
  "initColumn n = map (\<lambda>i. [i]) [0..<Suc n]"

definition initRow :: "matrix \<Rightarrow> nat \<Rightarrow> matrix" where
  "initRow m n = fold (\<lambda>j m. setCell m 0 j j) [0..<Suc n] m"

definition cell :: "'a list \<Rightarrow> 'a list \<Rightarrow> matrix \<Rightarrow> nat \<Rightarrow> nat \<Rightarrow> nat" where
  "cell a b m i j =
     (if b ! (i - 1) = a ! (j - 1) then m ! (i - 1) ! (j - 1)
      else min (m ! (i - 1) ! (j - 1) + 1) (min (m ! i ! (j - 1) + 1) (m ! (i - 1) ! j + 1)))"

definition fillRow :: "'a list \<Rightarrow> 'a list \<Rightarrow> nat \<Rightarrow> matrix \<Rightarrow> matrix" where
  "fillRow a b i m = fold (\<lambda>j m. setCell m i j (cell a b m i j)) [1..<Suc (length a)] m"

definition fillMatrix :: "'a list \<Rightarrow> 'a list \<Rightarrow> matrix \<Rightarrow> matrix" where
  "fillMatrix a b m = fold (fillRow a b) [1..<Suc (length b)] m"

definition levenshteinDistance :: "'a list \<Rightarrow> 'a list \<Rightarrow> nat" where
  "levenshteinDistance a b =
     (if length a = 0 then length b
      else if length b = 0 then length a
      else fillMatrix a b (initRow (initColumn (length b)) (length a)) ! length b ! length a)"

text \<open>
  The recurrence that the matrix tabulates, on lists read from their last character to
  their first: the entry of row \<open>i\<close> and column \<open>j\<close> is the distance between the first
  \<open>j\<close> characters of \<open>a\<close> and the first \<open>i\<close> characters of \<open>b\<close>.
\<close>

fun dist :: "'a list \<Rightarrow> 'a list \<Rightarrow> nat" where
  "dist [] ys = length ys"
| "dist (x # xs) [] = Suc (length xs)"
| "dist (x # xs) (y # ys) =
     (if x = y then dist xs ys
      else Suc (min (dist xs ys) (min (dist (x # xs) ys) (dist xs (y # ys)))))"

definition tableEntry :: "'a list \<Rightarrow> 'a list \<Rightarrow> nat \<Rightarrow> nat \<Rightarrow> nat" where
  "tableEntry a b i j = dist (rev (take j a)) (rev (take i b))"

definition tableRow :: "'a list \<Rightarrow> 'a list \<Rightarrow> nat \<Rightarrow> nat list" where
  "tableRow a b i = map (tableEntry a b i) [0..<Suc (length a)]"

definition tableUpTo :: "'a list \<Rightarrow> 'a list \<Rightarrow> nat \<Rightarrow> matrix" where
  "tableUpTo a b k = map (\<lambda>i. if i \<le> k then tableRow a b i else [i]) [0..<Suc (length b)]"

text \<open>
  What the contract measures: one step inserts, deletes or replaces a single character
  anywhere in the string, and \<open>edits n\<close> relates two strings when \<open>n\<close> such steps
  lead from the first to the second.
\<close>

inductive edit :: "'a list \<Rightarrow> 'a list \<Rightarrow> bool" where
  insertion: "edit (u @ v) (u @ c # v)"
| deletion: "edit (u @ c # v) (u @ v)"
| substitution: "edit (u @ c # v) (u @ d # v)"

fun edits :: "nat \<Rightarrow> 'a list \<Rightarrow> 'a list \<Rightarrow> bool" where
  "edits 0 x y = (x = y)"
| "edits (Suc n) x y = (\<exists>z. edits n x z \<and> edit z y)"



section \<open>The search engine\<close>

text \<open>
  The corpus held by \<open>HPRDataLoader\<close>: episodes and hosts in the order of their files,
  transcripts in the insertion order of the \<open>Map\<close> they are kept in. A search result
  wraps an episode or a host with \<open>matchType\<close> and, for a fuzzy match, \<open>matchDistance\<close>
  (\<open>None\<close> where the source leaves the field out).
\<close>

record episode =
  episode_id :: int
  date :: string
  title :: string
  summary :: string
  episode_notes :: string
  tags :: string
  hostid :: int
  series :: int
  duration :: int
  license :: string
  downloads :: int

record host =
  host_id :: int
  host :: string
  email :: string
  host_license :: string
  profile :: string
  valid :: int

record data_loader =
  episodes :: "episode list"
  hosts :: "host list"
  transcripts :: "(int \<times> string) list"

record 'a match =
  item :: 'a
  matchType :: string
  matchDistance :: "nat option"

record search_options =
  limit :: int
  hostId :: "int option"

record episode_options = search_options +
  seriesId :: "int option"
  tag :: "string option"
  fromDate :: "string option"
  toDate :: "string option"
  maxDistance :: int

definition default_episode_options :: episode_options where
  "default_episode_options =
     \<lparr>limit = 20, hostId = None, seriesId = None, tag = None, fromDate = None,
      toDate = None, maxDistance = 3\<rparr>"

text \<open>\<open>!x\<close> on an optional number and on an optional string.\<close>

definition falsy_num :: "int option \<Rightarrow> bool" where
  "falsy_num x = (case x of None \<Rightarrow> True | Some n \<Rightarrow> n = 0)"

definition falsy_str :: "string option \<Rightarrow> bool" where
  "falsy_str x = (case x of None \<Rightarrow> True | Some s \<Rightarrow> s = [])"

definition matchesFilters :: "episode_options \<Rightarrow> episode \<Rightarrow> bool" where
  "matchesFilters opts ep =
     (let matchesHost = (falsy_num (hostId opts) \<or> Some (hostid ep) = hostId opts);
          matchesSeries = (seriesId opts = None \<or> Some (series ep) = seriesId opts);
          matchesTag = (falsy_str (tag opts) \<or>
             str_includes (toLowerCase (tags ep)) (toLowerCase (the (tag opts))));
          matchesDateRange =
            ((falsy_str (fromDate opts) \<or> date ep \<ge> the (fromDate opts)) \<and>
             (falsy_str (toDate opts) \<or> date ep \<le> the (toDate opts)))
      in matchesHost \<and> matchesSeries \<and> matchesTag \<and> matchesDateRange)"

definition matchesQuery :: "string \<Rightarrow> episode \<Rightarrow> bool" where
  "matchesQuery query ep =
     (query = [] \<or>
      str_includes (toLowerCase (title ep)) (toLowerCase query) \<or>
      str_includes (toLowerCase (summary ep)) (toLowerCase query) \<or>
      str_includes (toLowerCase (tags ep)) (toLowerCase query) \<or>
      str_includes (toLowerCase (episode_notes ep)) (toLowerCase query))"

definition exactResults :: "episode list \<Rightarrow> string \<Rightarrow> episode_options \<Rightarrow> episode match list" where
  "exactResults eps query opts =
     map (\<lambda>ep. \<lparr>item = ep, matchType = ''exact'', matchDistance = None\<rparr>)
       (filter (\<lambda>ep. matchesQuery query ep \<and> matchesFilters opts ep) eps)"

text \<open>The loop over the words of a title; \<open>None\<close> is the initial \<open>Infinity\<close>.\<close>

definition minDistance :: "string \<Rightarrow> string list \<Rightarrow> nat option" where
  "minDistance queryLower titleWords =
     fold (\<lambda>word m.
             (let distance = levenshteinDistance queryLower word in
              case m of None \<Rightarrow> Some distance
              | Some md \<Rightarrow> if distance < md then Some distance else Some md))
          titleWords None"

definition titleWords :: "episode \<Rightarrow> string list" where
  "titleWords ep = splitSpaces False [] (toLowerCase (title ep))"

definition titleDistance :: "string \<Rightarrow> episode \<Rightarrow> nat option" where
  "titleDistance query ep = minDistance (toLowerCase query) (titleWords ep)"

definition withinDistance :: "int \<Rightarrow> nat option \<Rightarrow> bool" where
  "withinDistance maxd d = (case d of None \<Rightarrow> False | Some n \<Rightarrow> int n \<le> maxd)"

text \<open>\<open>x || 0\<close> on an optional distance.\<close>

definition distanceOr0 :: "nat option \<Rightarrow> int" where
  "distanceOr0 d = (case d of None \<Rightarrow> 0 | Some n \<Rightarrow> int n)"

definition compareDistance :: "'a \<times> nat option \<Rightarrow> 'a \<times> nat option \<Rightarrow> int" where
  "compareDistance a b = distanceOr0 (snd a) - distanceOr0 (snd b)"

definition fuzzyResults :: "episode list \<Rightarrow> string \<Rightarrow> episode_options \<Rightarrow> episode match list" where
  "fuzzyResults eps query opts =
     map (\<lambda>result. \<lparr>item = fst result, matchType = ''fuzzy'', matchDistance = snd result\<rparr>)
       (sort_by compareDistance
         (filter (\<lambda>result. withinDistance (maxDistance opts) (snd result))
           (map (\<lambda>ep. (ep, titleDistance query ep))
             (filter (matchesFilters opts) eps))))"

definition fuzzyRuns :: "episode list \<Rightarrow> string \<Rightarrow> episode_options \<Rightarrow> bool" where
  "fuzzyRuns eps query opts =
     (length (exactResults eps query opts) = 0 \<and> query \<noteq> [] \<and> length (trim query) > 0)"

definition compareResults :: "episode match \<Rightarrow> episode match \<Rightarrow> int" where
  "compareResults a b =
     (let distDiff = distanceOr0 (matchDistance a) - distanceOr0 (matchDistance b) in
      if matchType a = ''fuzzy'' \<and> matchType b = ''fuzzy'' \<and> distDiff \<noteq> 0 then distDiff
      else localeCompare (date (item b)) (date (item a)))"

definition unsortedResults :: "episode list \<Rightarrow> string \<Rightarrow> episode_options \<Rightarrow> episode match list" where
  "unsortedResults eps query opts =
     (if fuzzyRuns eps query opts then fuzzyResults eps query opts
      else exactResults eps query opts)"

definition sortedResults :: "episode list \<Rightarrow> string \<Rightarrow> episode_options \<Rightarrow> episode match list" where
  "sortedResults eps query opts = sort_by compareResults (unsortedResults eps query opts)"

definition searchEpisodes :: "data_loader \<Rightarrow> string \<Rightarrow> episode_options \<Rightarrow> episode match list" where
  "searchEpisodes dl query opts = slice (sortedResults (episodes dl) query opts) 0 (limit opts)"

subsection \<open>Host search\<close>

definition hostMatchesExactly :: "string \<Rightarrow> host \<Rightarrow> bool" where
  "hostMatchesExactly query h =
     (str_includes (toLowerCase (host h)) (toLowerCase query) \<or>
      str_includes (toLowerCase (email h)) (toLowerCase query))"

definition exactMatches :: "host list \<Rightarrow> string \<Rightarrow> host match list" where
  "exactMatches hs query =
     map (\<lambda>h. \<lparr>item = h, matchType = ''exact'', matchDistance = None\<rparr>)
       (filter (hostMatchesExactly query) hs)"

definition hostDistance :: "string \<Rightarrow> host \<Rightarrow> nat" where
  "hostDistance query h =
     min (levenshteinDistance (toLowerCase query) (toLowerCase (host h)))
         (levenshteinDistance (toLowerCase query) (toLowerCase (email h)))"

definition fuzzyMatches :: "host list \<Rightarrow> string \<Rightarrow> int \<Rightarrow> host match list" where
  "fuzzyMatches hs query maxd =
     map (\<lambda>result. \<lparr>item = fst result, matchType = ''fuzzy'', matchDistance = snd result\<rparr>)
       (sort_by compareDistance
         (filter (\<lambda>result. withinDistance maxd (snd result))
           (map (\<lambda>h. (h, Some (hostDistance query h))) hs)))"

definition searchHosts :: "data_loader \<Rightarrow> string \<Rightarrow> int \<Rightarrow> host match list" where
  "searchHosts dl query maxd =
     (if length (exactMatches (hosts dl) query) > 0 then exactMatches (hosts dl) query
      else fuzzyMatches (hosts dl) query maxd)"



text \<open>
  The least distance between the lower-cased query and a word of the lower-cased title,
  as a minimum over the set of the words.
\<close>

definition wordDistance :: "string \<Rightarrow> episode \<Rightarrow> nat" where
  "wordDistance query ep = Min (levenshteinDistance (toLowerCase query) ` set (titleWords ep))"

text \<open>A small corpus.\<close>

definition episodeA :: episode where
  "episodeA = \<lparr>episode_id = 1, date = ''2020-01-01'', title = ''Intro to Linux'',
     summary = ''first steps'', episode_notes = ''none'', tags = ''os'', hostid = 1,
     series = 0, duration = 600, license = ''CC-BY-SA'', downloads = 10\<rparr>"

definition episodeB :: episode where
  "episodeB = \<lparr>episode_id = 2, date = ''2021-06-15'', title = ''Linus on kernels'',
     summary = ''a talk'', episode_notes = ''none'', tags = ''os'', hostid = 2,
     series = 0, duration = 900, license = ''CC-BY-SA'', downloads = 20\<rparr>"

definition episodeC :: episode where
  "episodeC = \<lparr>episode_id = 3, date = ''2022-03-09'', title = ''Linux again'',
     summary = ''more steps'', episode_notes = ''none'', tags = ''os'', hostid = 1,
     series = 0, duration = 300, license = ''CC-BY-SA'', downloads = 5\<rparr>"

definition episodeShort :: episode where
  "episodeShort = \<lparr>episode_id = 4, date = ''2023-01-01'', title = ''abc'',
     summary = ''s'', episode_notes = ''n'', tags = ''t'', hostid = 1,
     series = 0, duration = 60, license = ''CC-BY-SA'', downloads = 1\<rparr>"

definition hostKlaatu :: host where
  "hostKlaatu = \<lparr>host_id = 1, host = ''klaatu'', email = ''k@hpr.io'',
     host_license = ''CC-BY-SA'', profile = ''p'', valid = 1\<rparr>"

definition hostKen :: host where
  "hostKen = \<lparr>host_id = 2, host = ''Ken'', email = ''ken@hpr.io'',
     host_license = ''CC-BY-SA'', profile = ''p'', valid = 1\<rparr>"

definition corpus :: data_loader where
  "corpus = \<lparr>episodes = [episodeA, episodeB, episodeC], hosts = [hostKlaatu, hostKen],
     transcripts = []\<rparr>"

definition shortCorpus :: data_loader where
  "shortCorpus = \<lparr>episodes = [episodeShort], hosts = [], transcripts = []\<rparr>"

subsection \<open>Transcript search\<close>

record transcript_options = search_options +
  contextLines :: int
  terms :: "string list"
  matchMode :: string
  hostName :: "string option"
  caseSensitive :: bool
  wholeWord :: bool
  maxMatchesPerEpisode :: int

definition default_transcript_options :: transcript_options where
  "default_transcript_options =
     \<lparr>limit = 20, hostId = None, contextLines = 3, terms = [], matchMode = ''auto'',
      hostName = None, caseSensitive = False, wholeWord = False, maxMatchesPerEpisode = 5\<rparr>"

record line_match =
  lineNumber :: nat
  lineTerms :: "string list"
  context_text :: string

record match_summary =
  summaryMode :: string
  matchedTerms :: "string list"
  totalMatches :: nat
  termHitCounts :: "(string \<times> nat) list"
  truncated :: bool

record transcript_result =
  result_episode :: episode
  matches :: "line_match list"
  matchSummary :: match_summary

text \<open>The local variables of the scan of one transcript.\<close>

record scan_state =
  matches_acc :: "line_match list"
  matchedTerms_acc :: "string list"
  termHitCounts_acc :: "(string \<times> nat) list"
  truncated_acc :: bool

text \<open>
  A matcher is a term; its pattern is the term escaped, between two \<open>\b\<close> when whole
  words are asked for, and \<open>regex.test(line)\<close> from \<open>lastIndex = 0\<close> looks for a
  position of the line where the term stands. Without the flag \<open>i\<close> the characters are
  compared as they are, with it after lower-casing both sides.
\<close>

definition is_word_char :: "char \<Rightarrow> bool" where
  "is_word_char c =
     (let n = (of_char c :: nat) in
      (48 \<le> n \<and> n \<le> 57) \<or> (65 \<le> n \<and> n \<le> 90) \<or> (97 \<le> n \<and> n \<le> 122) \<or> n = 95)"

definition is_word_opt :: "char option \<Rightarrow> bool" where
  "is_word_opt x = (case x of None \<Rightarrow> False | Some c \<Rightarrow> is_word_char c)"

definition boundary :: "char option \<Rightarrow> char option \<Rightarrow> bool" where
  "boundary l r = (is_word_opt l \<noteq> is_word_opt r)"

definition head_opt :: "string \<Rightarrow> char option" where
  "head_opt s = (case s of [] \<Rightarrow> None | c # _ \<Rightarrow> Some c)"

definition matchHere :: "bool \<Rightarrow> string \<Rightarrow> char option \<Rightarrow> string \<Rightarrow> bool" where
  "matchHere ww t prev rest =
     (startsWith rest t \<and>
      (ww \<longrightarrow> boundary prev (head_opt rest) \<and>
              boundary (if t = [] then prev else Some (last t)) (head_opt (drop (length t) rest))))"

fun searchFrom :: "bool \<Rightarrow> string \<Rightarrow> char option \<Rightarrow> string \<Rightarrow> bool" where
  "searchFrom ww t prev [] = matchHere ww t prev []"
| "searchFrom ww t prev (c # cs) = (matchHere ww t prev (c # cs) \<or> searchFrom ww t (Some c) cs)"

definition regexTest :: "bool \<Rightarrow> bool \<Rightarrow> string \<Rightarrow> string \<Rightarrow> bool" where
  "regexTest cs ww term line =
     (if cs then searchFrom ww term None line
      else searchFrom ww (toLowerCase term) None (toLowerCase line))"

text \<open>\<open>set.add(x)\<close> and \<open>[...new Set(xs)]\<close>, in insertion order.\<close>

definition setAdd :: "string list \<Rightarrow> string \<Rightarrow> string list" where
  "setAdd xs x = (if x \<in> set xs then xs else xs @ [x])"

definition uniq :: "string list \<Rightarrow> string list" where
  "uniq xs = fold (\<lambda>x acc. setAdd acc x) xs []"

text \<open>\<open>termHitCounts.set(term, (termHitCounts.get(term) || 0) + 1)\<close>.\<close>

fun bump :: "(string \<times> nat) list \<Rightarrow> string \<Rightarrow> (string \<times> nat) list" where
  "bump [] k = [(k, 1)]"
| "bump ((k', n) # rest) k = (if k' = k then (k', n + 1) # rest else (k', n) # bump rest k)"

definition testMatcher ::
  "bool \<Rightarrow> bool \<Rightarrow> string \<Rightarrow> string \<Rightarrow>
   string list \<times> string list \<times> (string \<times> nat) list \<Rightarrow>
   string list \<times> string list \<times> (string \<times> nat) list" where
  "testMatcher cs ww line term acc =
     (case acc of (matchedOnLine, mterms, hits) \<Rightarrow>
        if regexTest cs ww term line
        then (matchedOnLine @ [term], setAdd mterms term, bump hits term)
        else (matchedOnLine, mterms, hits))"

definition contextOf :: "string list \<Rightarrow> nat \<Rightarrow> int \<Rightarrow> string" where
  "contextOf lines index ctx =
     (let start = max 0 (int index - ctx);
          stop = min (int (length lines)) (int index + ctx + 1)
      in join [CHR 0x0A] (slice lines start stop))"

text \<open>
  The loop over the lines of one transcript: \<open>rest\<close> holds the lines from \<open>index\<close> on,
  \<open>lines\<close> all of them.
\<close>

fun scanLines ::
  "bool \<Rightarrow> bool \<Rightarrow> string list \<Rightarrow> int \<Rightarrow> int \<Rightarrow> string list \<Rightarrow> nat \<Rightarrow> string list \<Rightarrow>
   scan_state \<Rightarrow> scan_state" where
  "scanLines cs ww matchers ctx cap lines index [] st = st"
| "scanLines cs ww matchers ctx cap lines index (line # rest) st =
     (case fold (testMatcher cs ww line) matchers
             ([], matchedTerms_acc st, termHitCounts_acc st) of
        (matchedOnLine, mterms, hits) \<Rightarrow>
          (let ms = (if length matchedOnLine > 0
                     then matches_acc st @
                          [\<lparr>lineNumber = index + 1, lineTerms = uniq matchedOnLine,
                            context_text = contextOf lines index ctx\<rparr>]
                     else matches_acc st);
               st1 = \<lparr>matches_acc = ms, matchedTerms_acc = mterms,
                      termHitCounts_acc = hits, truncated_acc = truncated_acc st\<rparr>
           in if int (length ms) \<ge> cap then st1\<lparr>truncated_acc := True\<rparr>
              else scanLines cs ww matchers ctx cap lines (index + 1) rest st1))"

definition initialScan :: scan_state where
  "initialScan = \<lparr>matches_acc = [], matchedTerms_acc = [], termHitCounts_acc = [],
                  truncated_acc = False\<rparr>"

definition scanTranscript ::
  "bool \<Rightarrow> bool \<Rightarrow> string list \<Rightarrow> int \<Rightarrow> int \<Rightarrow> string \<Rightarrow> scan_state" where
  "scanTranscript cs ww matchers ctx cap transcript =
     (let lines = splitLines [] transcript
      in scanLines cs ww matchers ctx cap lines 0 lines initialScan)"

definition getEpisode :: "data_loader \<Rightarrow> int \<Rightarrow> episode option" where
  "getEpisode dl i = find (\<lambda>ep. episode_id ep = i) (episodes dl)"

definition nonEmpty :: "string \<Rightarrow> bool" where
  "nonEmpty s = (s \<noteq> [])"

definition resolvedHostIds :: "data_loader \<Rightarrow> transcript_options \<Rightarrow> int list" where
  "resolvedHostIds dl opts =
     (if falsy_num (hostId opts) then [] else [the (hostId opts)]) @
     (if falsy_str (hostName opts) then []
      else map (\<lambda>h. host_id (item h)) (searchHosts dl (the (hostName opts)) 2))"

definition explicitTerms :: "transcript_options \<Rightarrow> string list" where
  "explicitTerms opts = filter nonEmpty (map trim (terms opts))"

definition splitQueryTerms :: "string \<Rightarrow> transcript_options \<Rightarrow> string list" where
  "splitQueryTerms query opts =
     (if matchMode opts = ''any'' \<or> matchMode opts = ''all''
      then filter nonEmpty (map trim (splitOn is_term_separator [] query))
      else [])"

definition hasQuery :: "string \<Rightarrow> bool" where
  "hasQuery query = (length (trim query) > 0)"

definition searchTerms :: "string \<Rightarrow> transcript_options \<Rightarrow> string list" where
  "searchTerms query opts =
     (let ts = (if length (explicitTerms opts) > 0 then explicitTerms opts
                else splitQueryTerms query opts)
      in if length ts = 0 \<and> hasQuery query then [trim query] else ts)"

definition resolvedMatchMode :: "string \<Rightarrow> transcript_options \<Rightarrow> string" where
  "resolvedMatchMode query opts =
     (if matchMode opts \<in> set [''any'', ''all'', ''phrase''] then matchMode opts
      else if length (searchTerms query opts) > 1 then ''any'' else ''phrase'')"

definition effectiveTerms :: "string \<Rightarrow> transcript_options \<Rightarrow> string list" where
  "effectiveTerms query opts =
     (if resolvedMatchMode query opts = ''phrase''
      then filter nonEmpty
             [if hasQuery query then trim query
              else (case searchTerms query opts of [] \<Rightarrow> [] | t # _ \<Rightarrow> t)]
      else searchTerms query opts)"

text \<open>An escaped term is always a valid pattern, so only empty terms give no matcher.\<close>

definition matchersOf :: "string \<Rightarrow> transcript_options \<Rightarrow> string list" where
  "matchersOf query opts = filter nonEmpty (effectiveTerms query opts)"

text \<open>The \<open>matchSummary\<close> of a pushed result.\<close>

definition summarize :: "string \<Rightarrow> scan_state \<Rightarrow> match_summary" where
  "summarize mode st =
     \<lparr>summaryMode = mode, matchedTerms = matchedTerms_acc st,
      totalMatches = length (matches_acc st),
      termHitCounts = termHitCounts_acc st,
      truncated = truncated_acc st\<rparr>"

text \<open>
  The body of the loop over the transcripts, after the test of the limit: \<open>None\<close> where
  the source says \<open>continue\<close>, the pushed result otherwise.
\<close>

definition visitTranscript ::
  "data_loader \<Rightarrow> transcript_options \<Rightarrow> string \<Rightarrow> string list \<Rightarrow> int list \<Rightarrow>
   int \<times> string \<Rightarrow> transcript_result option" where
  "visitTranscript dl opts mode matchers hostIds entry =
     (case getEpisode dl (fst entry) of
        None \<Rightarrow> None
      | Some ep \<Rightarrow>
          if length hostIds > 0 \<and> hostid ep \<notin> set hostIds then None
          else
            (let st = scanTranscript (caseSensitive opts) (wholeWord opts) matchers
                        (contextLines opts) (maxMatchesPerEpisode opts) (snd entry)
             in if length (matches_acc st) = 0 then None
                else if mode = ''all'' \<and> length (matchedTerms_acc st) < length matchers then None
                else Some \<lparr>result_episode = ep, matches = matches_acc st,
                           matchSummary = summarize mode st\<rparr>))"

fun transcriptLoop ::
  "data_loader \<Rightarrow> transcript_options \<Rightarrow> string \<Rightarrow> string list \<Rightarrow> int list \<Rightarrow>
   (int \<times> string) list \<Rightarrow> transcript_result list \<Rightarrow> transcript_result list" where
  "transcriptLoop dl opts mode matchers hostIds [] results = results"
| "transcriptLoop dl opts mode matchers hostIds (entry # rest) results =
     (if int (length results) \<ge> limit opts then results
      else (case visitTranscript dl opts mode matchers hostIds entry of
              None \<Rightarrow> transcriptLoop dl opts mode matchers hostIds rest results
            | Some r \<Rightarrow> transcriptLoop dl opts mode matchers hostIds rest (results @ [r])))"

definition searchTranscripts :: "data_loader \<Rightarrow> string \<Rightarrow> transcript_options \<Rightarrow> transcript_result list" where
  "searchTranscripts dl query opts =
     (if length (effectiveTerms query opts) = 0 then []
      else if length (matchersOf query opts) = 0 then []
      else transcriptLoop dl opts (resolvedMatchMode query opts) (matchersOf query opts)
             (resolvedHostIds dl opts) (transcripts dl) [])"



text \<open>
  A line matches when some active pattern matches it. The examples below are transcripts
  given by their lines.
\<close>

definition lineMatches :: "bool \<Rightarrow> bool \<Rightarrow> string list \<Rightarrow> string \<Rightarrow> bool" where
  "lineMatches cs ww matchers line = (\<exists>t \<in> set matchers. regexTest cs ww t line)"

definition transcriptOf :: "string list \<Rightarrow> string" where
  "transcriptOf ls = join [CHR 0x0A] ls"

definition alphaOnly :: data_loader where
  "alphaOnly = \<lparr>episodes = [episodeA], hosts = [],
     transcripts = [(1, transcriptOf [''alpha here''])]\<rparr>"

definition alphaLate :: data_loader where
  "alphaLate = \<lparr>episodes = [episodeA], hosts = [],
     transcripts = [(1, transcriptOf [''x'', ''alpha''])]\<rparr>"

definition alphaFirst :: data_loader where
  "alphaFirst = \<lparr>episodes = [episodeA], hosts = [],
     transcripts = [(1, transcriptOf [''alpha''])]\<rparr>"

definition alphaFive :: data_loader where
  "alphaFive = \<lparr>episodes = [episodeA], hosts = [],
     transcripts = [(1, transcriptOf [''alpha'', ''alpha'', ''alpha'', ''alpha'', ''alpha''])]\<rparr>"

definition alphaTwice :: data_loader where
  "alphaTwice = \<lparr>episodes = [episodeA], hosts = [],
     transcripts = [(1, transcriptOf [''alpha'', ''alpha''])]\<rparr>"

definition betaLast :: data_loader where
  "betaLast = \<lparr>episodes = [episodeA], hosts = [],
     transcripts = [(1, transcriptOf [''alpha'', ''alpha'', ''beta''])]\<rparr>"

text \<open>
  The scan of one line, in closed form: the terms that match the line, and the local
  variables after the line is handled, before the cap is tested.
\<close>

definition termsOnLine :: "bool \<Rightarrow> bool \<Rightarrow> string list \<Rightarrow> string \<Rightarrow> string list" where
  "termsOnLine cs ww matchers line = filter (\<lambda>t. regexTest cs ww t line) matchers"

definition stepLine ::
  "bool \<Rightarrow> bool \<Rightarrow> string list \<Rightarrow> int \<Rightarrow> string list \<Rightarrow> nat \<Rightarrow> string \<Rightarrow>
   scan_state \<Rightarrow> scan_state" where
  "stepLine cs ww matchers ctx lines index line st =
     \<lparr>matches_acc =
        (if termsOnLine cs ww matchers line \<noteq> []
         then matches_acc st @
              [\<lparr>lineNumber = index + 1, lineTerms = uniq (termsOnLine cs ww matchers line),
                context_text = contextOf lines index ctx\<rparr>]
         else matches_acc st),
      matchedTerms_acc =
        fold (\<lambda>t acc. setAdd acc t) (termsOnLine cs ww matchers line) (matchedTerms_acc st),
      termHitCounts_acc =
        fold (\<lambda>t acc. bump acc t) (termsOnLine cs ww matchers line) (termHitCounts_acc st),
      truncated_acc = truncated_acc st\<rparr>"

text \<open>The local variables without the context windows of the matches.\<close>

definition bare ::
  "scan_state \<Rightarrow> (nat \<times> string list) list \<times> string list \<times> (string \<times> nat) list \<times> bool" where
  "bare st =
     (map (\<lambda>m. (lineNumber m, lineTerms m)) (matches_acc st), matchedTerms_acc st,
      termHitCounts_acc st, truncated_acc st)"

text \<open>What is read off a list of results in the examples.\<close>

definition shown ::
  "transcript_result list \<Rightarrow> (int \<times> nat list \<times> string list \<times> nat \<times> bool) list" where
  "shown rs =
     map (\<lambda>r. (episode_id (result_episode r), map lineNumber (matches r),
                matchedTerms (matchSummary r), totalMatches (matchSummary r),
                truncated (matchSummary r))) rs"

text \<open>
  The set of matched terms holds, once each, the terms of the recorded matches.
\<close>

definition termsRecorded :: "scan_state \<Rightarrow> bool" where
  "termsRecorded st =
     (distinct (matchedTerms_acc st) \<and>
      set (matchedTerms_acc st) = (\<Union>m \<in> set (matches_acc st). set (lineTerms m)))"

definition termOptions :: "string list \<Rightarrow> string \<Rightarrow> int \<Rightarrow> transcript_options" where
  "termOptions ts mode cap =
     default_transcript_options\<lparr>terms := ts, matchMode := mode, maxMatchesPerEpisode := cap\<rparr>"

section \<open>Properties of the circuit breaker\<close>

lemma execute_closed_failure:
  "state cb = CLOSED \<Longrightarrow> isl (fst (fn now)) \<Longrightarrow>
   snd (execute cb now fn) =
     (if threshold cb \<le> failures cb + 1
      then cb\<lparr>failures := failures cb + 1, state := OPEN, nextAttempt := snd (fn now) + timeout cb\<rparr>
      else cb\<lparr>failures := failures cb + 1\<rparr>)"
  by (cases "fst (fn now)") (simp_all add: execute_def admit_def settle_def Let_def)

lemma execute_closed_success:
  "state cb = CLOSED \<Longrightarrow> \<not> isl (fst (fn now)) \<Longrightarrow> snd (execute cb now fn) = cb"
  by (cases "fst (fn now)") (simp_all add: execute_def admit_def settle_def)

lemma run_closed_below_threshold:
  "state cb = CLOSED \<Longrightarrow> failures cb + length (filter failed cs) < threshold cb \<Longrightarrow>
   state (run cb cs) = CLOSED \<and> failures (run cb cs) = failures cb + length (filter failed cs)
   \<and> threshold (run cb cs) = threshold cb \<and> timeout (run cb cs) = timeout cb"
proof (induction cs arbitrary: cb)
  case Nil
  then show ?case by simp
next
  case (Cons c cs)
  show ?case
  proof (cases "failed c")
    case True
    then have f: "isl (fst ((snd c) (fst c)))" by (simp add: failed_def)
    from Cons.prems True have lt: "\<not> threshold cb \<le> failures cb + 1" by simp
    have step: "snd (execute cb (fst c) (snd c)) = cb\<lparr>failures := failures cb + 1\<rparr>"
      using execute_closed_failure [of cb "snd c" "fst c"] Cons.prems(1) f lt by simp
    show ?thesis
      using Cons.IH [of "cb\<lparr>failures := failures cb + 1\<rparr>"] Cons.prems True step by simp
  next
    case False
    then have f: "\<not> isl (fst ((snd c) (fst c)))" by (simp add: failed_def)
    have step: "snd (execute cb (fst c) (snd c)) = cb"
      using execute_closed_success [of cb "snd c" "fst c"] Cons.prems(1) f by simp
    show ?thesis using Cons.IH [of cb] Cons.prems False step by simp
  qed
qed

lemma opened_eq:
  "opened = \<lparr>failures = 5, threshold = 5, timeout = 60000, state = OPEN, nextAttempt = 60006\<rparr>"
  by (simp add: opened_def new_breaker_def execute_def admit_def settle_def failing_def Let_def)

lemma execute_probe_success:
  "state cb = HALF_OPEN \<or> (state cb = OPEN \<and> nextAttempt cb \<le> now) \<Longrightarrow>
   \<not> isl (fst (fn now)) \<Longrightarrow>
   snd (execute cb now fn) = cb\<lparr>state := CLOSED, failures := 0\<rparr>"
  by (cases "fst (fn now)") (auto simp add: execute_def admit_def settle_def)

lemma execute_probe_failure:
  "state cb = HALF_OPEN \<or> (state cb = OPEN \<and> nextAttempt cb \<le> now) \<Longrightarrow>
   isl (fst (fn now)) \<Longrightarrow>
   snd (execute cb now fn) =
     (if threshold cb \<le> failures cb + 1
      then cb\<lparr>failures := failures cb + 1, state := OPEN, nextAttempt := snd (fn now) + timeout cb\<rparr>
      else cb\<lparr>failures := failures cb + 1, state := HALF_OPEN\<rparr>)"
  by (cases "fst (fn now)") (auto simp add: execute_def admit_def settle_def Let_def)

lemma execute_rejected:
  "state cb = OPEN \<Longrightarrow> now < nextAttempt cb \<Longrightarrow> snd (execute cb now fn) = cb"
  by (simp add: execute_def admit_def)

lemma failures_drop:
  assumes "failures (snd (execute cb now fn)) < failures cb"
  shows "\<not> isl (fst (fn now)) \<and> state cb \<noteq> CLOSED \<and> failures (snd (execute cb now fn)) = 0"
proof (cases "state cb = OPEN \<and> now < nextAttempt cb")
  case True
  then show ?thesis using assms execute_rejected [of cb now fn] by simp
next
  case False
  show ?thesis
  proof (cases "state cb = CLOSED")
    case True
    show ?thesis
    proof (cases "isl (fst (fn now))")
      case True
      then show ?thesis
        using assms execute_closed_failure [of cb fn now] \<open>state cb = CLOSED\<close>
        by (simp split: if_splits)
    next
      case False
      then show ?thesis
        using assms execute_closed_success [of cb fn now] \<open>state cb = CLOSED\<close> by simp
    qed
  next
    case nc: False
    then have p: "state cb = HALF_OPEN \<or> (state cb = OPEN \<and> nextAttempt cb \<le> now)"
      using False by (cases "state cb") auto
    show ?thesis
    proof (cases "isl (fst (fn now))")
      case True
      then show ?thesis
        using assms execute_probe_failure [of cb now fn] p by (simp split: if_splits)
    next
      case False
      then show ?thesis
        using execute_probe_success [of cb now fn] p nc by simp
    qed
  qed
qed

text \<open>
  C1, as the code has it. The counter \<open>failures\<close> is set to zero only by a successful
  call made as a probe (in \<open>HALF_OPEN\<close>, which an \<open>OPEN\<close> breaker enters at or after
  \<open>nextAttempt\<close>) and by \<open>reset\<close>; a successful call made in \<open>CLOSED\<close> leaves the
  breaker as it is. So a closed breaker opens exactly on the failed call that brings the
  number of failures counted since then to the threshold, whatever successful calls lie
  between them: a failed call adds one to the counter, it opens the breaker if and only
  if the counter is then at least the threshold, the resume time is then the time the
  failure is seen plus the cooldown, and a sequence of calls whose failures, added to the
  counter, stay below the threshold leaves the breaker closed with all of them counted.
  A successful probe closes the breaker and zeroes the counter; a failed probe adds one
  to the counter and opens the breaker again when the threshold is reached; a rejected
  call changes nothing; and a call after which the counter is smaller than before is a
  successful call made outside \<open>CLOSED\<close>, which leaves it at zero.
\<close>

theorem breaker_opens_on_counted_failures:
  "(state cb = CLOSED \<longrightarrow>
      (state (snd (execute cb now fn)) = OPEN
         \<longleftrightarrow> isl (fst (fn now)) \<and> threshold cb \<le> failures cb + 1)
    \<and> (isl (fst (fn now)) \<longrightarrow> failures (snd (execute cb now fn)) = failures cb + 1)
    \<and> (\<not> isl (fst (fn now)) \<longrightarrow> snd (execute cb now fn) = cb)
    \<and> (state (snd (execute cb now fn)) = OPEN
         \<longrightarrow> nextAttempt (snd (execute cb now fn)) = snd (fn now) + timeout cb)
    \<and> (failures cb + length (filter failed cs) < threshold cb
         \<longrightarrow> state (run cb cs) = CLOSED
           \<and> failures (run cb cs) = failures cb + length (filter failed cs)))
   \<and> (state cb = HALF_OPEN \<or> (state cb = OPEN \<and> nextAttempt cb \<le> now) \<longrightarrow>
      (\<not> isl (fst (fn now)) \<longrightarrow>
         snd (execute cb now fn) = cb\<lparr>state := CLOSED, failures := 0\<rparr>)
    \<and> (isl (fst (fn now)) \<longrightarrow>
         snd (execute cb now fn) =
           (if threshold cb \<le> failures cb + 1
            then cb\<lparr>failures := failures cb + 1, state := OPEN,
                      nextAttempt := snd (fn now) + timeout cb\<rparr>
            else cb\<lparr>failures := failures cb + 1, state := HALF_OPEN\<rparr>)))
   \<and> (state cb = OPEN \<and> now < nextAttempt cb \<longrightarrow> snd (execute cb now fn) = cb)
   \<and> (failures (snd (execute cb now fn)) < failures cb \<longrightarrow>
        \<not> isl (fst (fn now)) \<and> state cb \<noteq> CLOSED \<and> failures (snd (execute cb now fn)) = 0)
   \<and> reset cb = cb\<lparr>failures := 0, state := CLOSED\<rparr>"
proof -
  have a: "state cb = CLOSED \<longrightarrow>
      (state (snd (execute cb now fn)) = OPEN
         \<longleftrightarrow> isl (fst (fn now)) \<and> threshold cb \<le> failures cb + 1)
    \<and> (isl (fst (fn now)) \<longrightarrow> failures (snd (execute cb now fn)) = failures cb + 1)
    \<and> (\<not> isl (fst (fn now)) \<longrightarrow> snd (execute cb now fn) = cb)
    \<and> (state (snd (execute cb now fn)) = OPEN
         \<longrightarrow> nextAttempt (snd (execute cb now fn)) = snd (fn now) + timeout cb)
    \<and> (failures cb + length (filter failed cs) < threshold cb
         \<longrightarrow> state (run cb cs) = CLOSED
           \<and> failures (run cb cs) = failures cb + length (filter failed cs))"
  proof
    assume c: "state cb = CLOSED"
    show "(state (snd (execute cb now fn)) = OPEN
         \<longleftrightarrow> isl (fst (fn now)) \<and> threshold cb \<le> failures cb + 1)
    \<and> (isl (fst (fn now)) \<longrightarrow> failures (snd (execute cb now fn)) = failures cb + 1)
    \<and> (\<not> isl (fst (fn now)) \<longrightarrow> snd (execute cb now fn) = cb)
    \<and> (state (snd (execute cb now fn)) = OPEN
         \<longrightarrow> nextAttempt (snd (execute cb now fn)) = snd (fn now) + timeout cb)
    \<and> (failures cb + length (filter failed cs) < threshold cb
         \<longrightarrow> state (run cb cs) = CLOSED
           \<and> failures (run cb cs) = failures cb + length (filter failed cs))"
    proof (cases "isl (fst (fn now))")
      case True
      show ?thesis
        using execute_closed_failure [of cb fn now] c True
          run_closed_below_threshold [of cb cs]
        by simp
    next
      case False
      show ?thesis
        using execute_closed_success [of cb fn now] False c
          run_closed_below_threshold [of cb cs]
        by simp
    qed
  qed
  have b: "state cb = HALF_OPEN \<or> (state cb = OPEN \<and> nextAttempt cb \<le> now) \<longrightarrow>
      (\<not> isl (fst (fn now)) \<longrightarrow>
         snd (execute cb now fn) = cb\<lparr>state := CLOSED, failures := 0\<rparr>)
    \<and> (isl (fst (fn now)) \<longrightarrow>
         snd (execute cb now fn) =
           (if threshold cb \<le> failures cb + 1
            then cb\<lparr>failures := failures cb + 1, state := OPEN,
                      nextAttempt := snd (fn now) + timeout cb\<rparr>
            else cb\<lparr>failures := failures cb + 1, state := HALF_OPEN\<rparr>))"
    using execute_probe_success [of cb now fn] execute_probe_failure [of cb now fn] by blast
  have c: "state cb = OPEN \<and> now < nextAttempt cb \<longrightarrow> snd (execute cb now fn) = cb"
    using execute_rejected [of cb now fn] by blast
  have d: "failures (snd (execute cb now fn)) < failures cb \<longrightarrow>
        \<not> isl (fst (fn now)) \<and> state cb \<noteq> CLOSED \<and> failures (snd (execute cb now fn)) = 0"
    using failures_drop [of cb now fn] by blast
  have e: "reset cb = cb\<lparr>failures := 0, state := CLOSED\<rparr>" by (simp add: reset_def)
  show ?thesis by (intro conjI) (rule a, rule b, rule c, rule d, rule e)
qed

theorem breaker_opens_on_counted_failures_witness:
  "state (new_breaker 5 60000 0) = CLOSED
   \<and> isl (fst (failing 7))
   \<and> \<not> isl (fst (succeeding 7))
   \<and> failures (new_breaker 5 60000 0) + length (filter failed [(1, failing), (2, succeeding)]) <
       threshold (new_breaker 5 60000 0)
   \<and> state (run (new_breaker 5 60000 0) [(1, failing), (2, succeeding)]) = CLOSED
   \<and> failures (run (new_breaker 5 60000 0) [(1, failing), (2, succeeding)]) = 1
   \<and> failures (snd (execute (new_breaker 5 60000 0) 7 failing)) = 1
   \<and> snd (execute (new_breaker 5 60000 0) 7 succeeding) = new_breaker 5 60000 0
   \<and> state (snd (execute (new_breaker 1 60000 0) 7 failing)) = OPEN
   \<and> nextAttempt (snd (execute (new_breaker 1 60000 0) 7 failing)) = 60008
   \<and> state opened = OPEN \<and> nextAttempt opened \<le> 60006 \<and> 6 < nextAttempt opened
   \<and> snd (execute opened 60006 succeeding) =
       \<lparr>failures = 0, threshold = 5, timeout = 60000, state = CLOSED, nextAttempt = 60006\<rparr>
   \<and> snd (execute opened 60006 failing) =
       \<lparr>failures = 6, threshold = 5, timeout = 60000, state = OPEN, nextAttempt = 120007\<rparr>
   \<and> snd (execute (opened\<lparr>threshold := 9\<rparr>) 60006 failing) =
       \<lparr>failures = 6, threshold = 9, timeout = 60000, state = HALF_OPEN, nextAttempt = 60006\<rparr>
   \<and> snd (execute opened 6 failing) = opened
   \<and> failures (snd (execute opened 60006 succeeding)) < failures opened"
proof -
  note t1 = breaker_opens_on_counted_failures
          [of "new_breaker 5 60000 0" 7 failing "[(1, failing), (2, succeeding)]"]
  note t2 = breaker_opens_on_counted_failures
          [of "new_breaker 5 60000 0" 7 succeeding "[(1, failing), (2, succeeding)]"]
  note t3 = breaker_opens_on_counted_failures
          [of "new_breaker 1 60000 0" 7 failing "[] :: (int \<times> unit operation) list"]
  note t4 = breaker_opens_on_counted_failures
          [of opened 60006 succeeding "[] :: (int \<times> unit operation) list"]
  note t5 = breaker_opens_on_counted_failures
          [of opened 60006 failing "[] :: (int \<times> unit operation) list"]
  note t6 = breaker_opens_on_counted_failures
          [of "opened\<lparr>threshold := 9\<rparr>" 60006 failing "[] :: (int \<times> unit operation) list"]
  note t7 = breaker_opens_on_counted_failures
          [of opened 6 failing "[] :: (int \<times> unit operation) list"]
  have closed: "state (new_breaker 5 60000 0) = CLOSED" "state (new_breaker 1 60000 0) = CLOSED"
    by (simp_all add: new_breaker_def)
  have f: "isl (fst (failing 7))" "\<not> isl (fst (succeeding 7))"
    "isl (fst (failing 60006))" "\<not> isl (fst (succeeding 60006))"
    by (simp_all add: failing_def succeeding_def)
  have o: "state opened = OPEN" "nextAttempt opened \<le> 60006" "6 < nextAttempt opened"
    "state (opened\<lparr>threshold := 9\<rparr>) = OPEN" "nextAttempt (opened\<lparr>threshold := 9\<rparr>) \<le> 60006"
    by (simp_all add: opened_eq)
  have below: "failures (new_breaker 5 60000 0)
      + length (filter failed [(1, failing), (2, succeeding)]) < threshold (new_breaker 5 60000 0)"
    by (simp add: new_breaker_def failed_def failing_def succeeding_def)
  from t1 closed(1) below have r1:
    "state (run (new_breaker 5 60000 0) [(1, failing), (2, succeeding)]) = CLOSED"
    "failures (run (new_breaker 5 60000 0) [(1, failing), (2, succeeding)])
       = failures (new_breaker 5 60000 0) + length (filter failed [(1, failing), (2, succeeding)])"
    by blast+
  have r1': "failures (run (new_breaker 5 60000 0) [(1, failing), (2, succeeding)]) = 1"
    unfolding r1(2) by (simp add: new_breaker_def failed_def failing_def succeeding_def)
  from t1 closed(1) f(1) have r2:
    "failures (snd (execute (new_breaker 5 60000 0) 7 failing))
      = failures (new_breaker 5 60000 0) + 1" by blast
  have r2': "failures (snd (execute (new_breaker 5 60000 0) 7 failing)) = 1"
    unfolding r2 by (simp add: new_breaker_def)
  from t2 closed(1) f(2) have r3:
    "snd (execute (new_breaker 5 60000 0) 7 succeeding) = new_breaker 5 60000 0" by blast
  have thr: "threshold (new_breaker 1 60000 0) \<le> failures (new_breaker 1 60000 0) + 1"
    by (simp add: new_breaker_def)
  from t3 closed(2) f(1) thr have r4:
    "state (snd (execute (new_breaker 1 60000 0) 7 failing)) = OPEN" by blast
  with t3 closed(2) have "nextAttempt (snd (execute (new_breaker 1 60000 0) 7 failing))
      = snd (failing 7) + timeout (new_breaker 1 60000 0)" by blast
  then have r5: "nextAttempt (snd (execute (new_breaker 1 60000 0) 7 failing)) = 60008"
    by (simp add: failing_def new_breaker_def)
  from t4 o(1,2) f(4) have
    "snd (execute opened 60006 succeeding) = opened\<lparr>state := CLOSED, failures := 0\<rparr>" by blast
  then have r6: "snd (execute opened 60006 succeeding) =
       \<lparr>failures = 0, threshold = 5, timeout = 60000, state = CLOSED, nextAttempt = 60006\<rparr>"
    by (simp add: opened_eq)
  from t5 o(1,2) f(3) have "snd (execute opened 60006 failing) =
           (if threshold opened \<le> failures opened + 1
            then opened\<lparr>failures := failures opened + 1, state := OPEN,
                      nextAttempt := snd (failing 60006) + timeout opened\<rparr>
            else opened\<lparr>failures := failures opened + 1, state := HALF_OPEN\<rparr>)" by blast
  then have r7: "snd (execute opened 60006 failing) =
       \<lparr>failures = 6, threshold = 5, timeout = 60000, state = OPEN, nextAttempt = 120007\<rparr>"
    by (simp add: opened_eq failing_def)
  from t6 o(4,5) f(3) have "snd (execute (opened\<lparr>threshold := 9\<rparr>) 60006 failing) =
           (if threshold (opened\<lparr>threshold := 9\<rparr>) \<le> failures (opened\<lparr>threshold := 9\<rparr>) + 1
            then (opened\<lparr>threshold := 9\<rparr>)\<lparr>failures := failures (opened\<lparr>threshold := 9\<rparr>) + 1,
                      state := OPEN,
                      nextAttempt := snd (failing 60006) + timeout (opened\<lparr>threshold := 9\<rparr>)\<rparr>
            else (opened\<lparr>threshold := 9\<rparr>)\<lparr>failures := failures (opened\<lparr>threshold := 9\<rparr>) + 1,
                      state := HALF_OPEN\<rparr>)" by blast
  then have r8: "snd (execute (opened\<lparr>threshold := 9\<rparr>) 60006 failing) =
       \<lparr>failures = 6, threshold = 9, timeout = 60000, state = HALF_OPEN, nextAttempt = 60006\<rparr>"
    by (simp add: opened_eq)
  from t7 o(1,3) have r9: "snd (execute opened 6 failing) = opened" by blast
  have r10: "failures (snd (execute opened 60006 succeeding)) < failures opened"
    unfolding r6 by (simp add: opened_eq)
  show ?thesis
    by (intro conjI) (rule closed(1), rule f(1), rule f(2), rule below, rule r1(1), rule r1',
        rule r2', rule r3, rule r4, rule r5, rule o(1), rule o(2), rule o(3), rule r6, rule r7,
        rule r8, rule r9, rule r10)
qed

text \<open>
  C1 as it is written fails: with the default threshold, four failed calls, a successful
  call and one more failed call open the breaker, although only one failure has happened
  since the last success.
\<close>

theorem success_does_not_reset_counterexample:
  "state (run (new_breaker CIRCUIT_BREAKER_THRESHOLD CIRCUIT_BREAKER_TIMEOUT_MS 0)
          [(1, failing), (2, failing), (3, failing), (4, failing), (5, succeeding)]) = CLOSED
   \<and> state (run (new_breaker CIRCUIT_BREAKER_THRESHOLD CIRCUIT_BREAKER_TIMEOUT_MS 0)
          [(1, failing), (2, failing), (3, failing), (4, failing), (5, succeeding),
           (6, failing)]) = OPEN"
  by (simp add: new_breaker_def CIRCUIT_BREAKER_THRESHOLD_def CIRCUIT_BREAKER_TIMEOUT_MS_def
        execute_def admit_def settle_def failing_def succeeding_def Let_def)

lemma run_rejected:
  "state cb = OPEN \<Longrightarrow> \<forall>c \<in> set cs. fst c < nextAttempt cb \<Longrightarrow> run cb cs = cb"
  by (induction cs) (simp_all add: execute_def admit_def)

text \<open>
  C2. While the breaker is \<open>OPEN\<close>, a call made before \<open>nextAttempt\<close> is rejected with
  the message of \<open>unavailable\<close>, whatever the wrapped operation is, and leaves the
  breaker as it was, so this holds for every such call in a row; the result does not depend
  on the operation, which is not called. A call made at or after \<open>nextAttempt\<close> moves the
  state to \<open>HALF_OPEN\<close> before the operation starts, and the outcome of the call is the
  outcome of the operation started at that time.
\<close>

theorem open_rejects_until_resume:
  assumes "state cb = OPEN"
  shows "(now < nextAttempt cb \<longrightarrow> execute cb now fn = (Inl unavailable, cb))
       \<and> ((\<forall>c \<in> set cs. fst c < nextAttempt cb) \<longrightarrow> run cb cs = cb)
       \<and> (nextAttempt cb \<le> now \<longrightarrow>
            admit cb now = Inr (cb\<lparr>state := HALF_OPEN\<rparr>)
          \<and> execute cb now fn = settle (cb\<lparr>state := HALF_OPEN\<rparr>) (fst (fn now)) (snd (fn now))
          \<and> fst (execute cb now fn) = fst (fn now))"
proof -
  have a: "now < nextAttempt cb \<longrightarrow> execute cb now fn = (Inl unavailable, cb)"
    using assms by (simp add: execute_def admit_def)
  have b: "(\<forall>c \<in> set cs. fst c < nextAttempt cb) \<longrightarrow> run cb cs = cb"
    using run_rejected [of cb cs] assms by blast
  have c: "nextAttempt cb \<le> now \<longrightarrow>
            admit cb now = Inr (cb\<lparr>state := HALF_OPEN\<rparr>)
          \<and> execute cb now fn = settle (cb\<lparr>state := HALF_OPEN\<rparr>) (fst (fn now)) (snd (fn now))
          \<and> fst (execute cb now fn) = fst (fn now)"
    using assms by (cases "fst (fn now)") (simp_all add: execute_def admit_def settle_def Let_def)
  from a b c show ?thesis by blast
qed

theorem open_rejects_until_resume_witness:
  "state opened = OPEN
   \<and> (6 < nextAttempt opened \<and> execute opened 6 succeeding = (Inl unavailable, opened))
   \<and> (60005 < nextAttempt opened
        \<and> run opened [(6, succeeding), (60005, succeeding)] = opened)
   \<and> (nextAttempt opened \<le> 60006
        \<and> admit opened 60006 = Inr (opened\<lparr>state := HALF_OPEN\<rparr>)
        \<and> fst (execute opened 60006 succeeding) = Inr ()
        \<and> state (snd (execute opened 60006 succeeding)) = CLOSED
        \<and> failures (snd (execute opened 60006 succeeding)) = 0)"
  using open_rejects_until_resume [of opened 6 succeeding "[(6, succeeding), (60005, succeeding)]"]
        open_rejects_until_resume [of opened 60006 succeeding "[] :: (int \<times> unit operation) list"]
  by (simp add: opened_eq succeeding_def settle_def del: run.simps)

lemma reset_from_open_or_closed:
  "(state (reset cb) = CLOSED \<and> failures (reset cb) = 0)
   \<and> (state cb = OPEN \<longrightarrow> fst (post_reset cb) = reset cb)
   \<and> (state cb = CLOSED \<longrightarrow> fst (post_reset cb) = cb)"
  by (simp add: reset_def post_reset_def)

text \<open>
  C3, at the state the handler of \<open>POST /reset\<close> misses. While a probing call is
  awaited the breaker is \<open>HALF_OPEN\<close>; a request to \<open>/reset\<close> handled then takes the
  \<open>else\<close> branch: it answers that the breaker is already closed and leaves it
  \<open>HALF_OPEN\<close> with its five failures counted, where the method \<open>reset\<close> would have
  left it \<open>CLOSED\<close> with none, as the handler does from \<open>OPEN\<close>.
\<close>

theorem reset_skipped_during_probe:
  "admit opened 60006 = Inr (opened\<lparr>state := HALF_OPEN\<rparr>)
   \<and> post_reset (opened\<lparr>state := HALF_OPEN\<rparr>)
       = (opened\<lparr>state := HALF_OPEN\<rparr>, ''Circuit breaker already CLOSED.'')
   \<and> state (fst (post_reset (opened\<lparr>state := HALF_OPEN\<rparr>))) = HALF_OPEN
   \<and> failures (fst (post_reset (opened\<lparr>state := HALF_OPEN\<rparr>))) = 5
   \<and> state (reset (opened\<lparr>state := HALF_OPEN\<rparr>)) = CLOSED
   \<and> failures (reset (opened\<lparr>state := HALF_OPEN\<rparr>)) = 0
   \<and> post_reset opened = (reset opened, ''Circuit breaker reset to CLOSED.'')"
  by (simp add: opened_eq admit_def post_reset_def reset_def)

section \<open>Properties of the lexical distance\<close>

subsection \<open>The matrix holds the recurrence\<close>

lemma dist_Nil2: "dist xs [] = length xs"
  by (cases xs) simp_all

lemma tableEntry_0_left: "i \<le> length b \<Longrightarrow> tableEntry a b i 0 = i"
  by (simp add: tableEntry_def)

lemma tableEntry_0_top: "j \<le> length a \<Longrightarrow> tableEntry a b 0 j = j"
  by (simp add: tableEntry_def dist_Nil2)

lemma rev_take_Suc: "j < length a \<Longrightarrow> rev (take (Suc j) a) = a ! j # rev (take j a)"
  by (simp add: take_Suc_conv_app_nth)

lemma tableEntry_step:
  assumes "i < length b" "j < length a"
  shows "tableEntry a b (Suc i) (Suc j) =
     (if b ! i = a ! j then tableEntry a b i j
      else min (tableEntry a b i j + 1) (min (tableEntry a b (Suc i) j + 1) (tableEntry a b i (Suc j) + 1)))"
  using assms by (auto simp add: tableEntry_def rev_take_Suc simp del: take_Suc)

lemma tableRow_nth: "j \<le> length a \<Longrightarrow> tableRow a b i ! j = tableEntry a b i j"
  unfolding tableRow_def by (simp add: nth_map_upt del: upt_Suc)

lemma cell_tableEntry:
  assumes "0 < i" "i \<le> length b" "n < length a"
    and prev: "m ! (i - 1) = tableRow a b (i - 1)"
    and cur: "m ! i = map (tableEntry a b i) [0..<Suc n]"
  shows "cell a b m i (Suc n) = tableEntry a b i (Suc n)"
proof -
  obtain i' where i': "i = Suc i'" using assms(1) by (cases i) auto
  have p1: "m ! i' ! n = tableEntry a b i' n"
    using prev i' assms(3) by (simp add: tableRow_nth)
  have p2: "m ! i' ! Suc n = tableEntry a b i' (Suc n)"
    using prev i' assms(3) by (simp add: tableRow_nth)
  have p3: "m ! Suc i' ! n = tableEntry a b (Suc i') n"
    using cur i' by (simp add: nth_map_upt del: upt_Suc)
  have "i' < length b" using i' assms(2) by simp
  from tableEntry_step [OF this assms(3)] p1 p2 p3 show ?thesis
    by (simp add: cell_def i')
qed

lemma fillRow_prefix:
  assumes "i < length m" "0 < i" "i \<le> length b" "n \<le> length a"
    and prev: "m ! (i - 1) = tableRow a b (i - 1)"
    and cur: "m ! i = [i]"
  shows "fold (\<lambda>j m. setCell m i j (cell a b m i j)) [1..<Suc n] m
         = m[i := map (tableEntry a b i) [0..<Suc n]]"
  using assms(4)
proof (induction n)
  case 0
  have "m[i := [tableEntry a b i 0]] = m"
    using cur assms(3) list_update_id [of m i] by (simp add: tableEntry_0_left)
  then show ?case by simp
next
  case (Suc n)
  let ?m' = "m[i := map (tableEntry a b i) [0..<Suc n]]"
  have IH: "fold (\<lambda>j m. setCell m i j (cell a b m i j)) [1..<Suc n] m = ?m'"
    using Suc by simp
  have n: "n < length a" using Suc.prems by simp
  have prev': "?m' ! (i - 1) = tableRow a b (i - 1)"
    using prev assms(2) by simp
  have cur': "?m' ! i = map (tableEntry a b i) [0..<Suc n]"
    using assms(1) by simp
  have c: "cell a b ?m' i (Suc n) = tableEntry a b i (Suc n)"
    using cell_tableEntry [OF assms(2) assms(3) n prev' cur'] .
  have "setCell ?m' i (Suc n) (cell a b ?m' i (Suc n))
        = m[i := map (tableEntry a b i) [0..<Suc (Suc n)]]"
    using cur' c by (simp add: setCell_def assign_def)
  moreover have "[1..<Suc (Suc n)] = [1..<Suc n] @ [Suc n]" by simp
  ultimately show ?case using IH by (simp del: upt_Suc)
qed

lemma fillRow_tableUpTo:
  assumes "k < length b"
  shows "fillRow a b (Suc k) (tableUpTo a b k) = tableUpTo a b (Suc k)"
proof -
  let ?m = "tableUpTo a b k"
  have len: "length ?m = Suc (length b)" by (simp add: tableUpTo_def)
  have nth: "\<And>i. i \<le> length b \<Longrightarrow> ?m ! i = (if i \<le> k then tableRow a b i else [i])"
    unfolding tableUpTo_def by (simp add: nth_map_upt del: upt_Suc)
  have 1: "Suc k < length ?m" using assms len by simp
  have prev: "?m ! (Suc k - 1) = tableRow a b (Suc k - 1)" using nth [of k] assms by simp
  have cur: "?m ! Suc k = [Suc k]" using nth [of "Suc k"] assms by simp
  have "fillRow a b (Suc k) ?m = ?m[Suc k := map (tableEntry a b (Suc k)) [0..<Suc (length a)]]"
    unfolding fillRow_def
    using fillRow_prefix [OF 1 _ _ _ prev cur, of "length a"] assms by simp
  also have "\<dots> = tableUpTo a b (Suc k)"
  proof (rule nth_equalityI)
    show "length (?m[Suc k := map (tableEntry a b (Suc k)) [0..<Suc (length a)]])
          = length (tableUpTo a b (Suc k))"
      by (simp add: tableUpTo_def)
  next
    fix i assume "i < length (?m[Suc k := map (tableEntry a b (Suc k)) [0..<Suc (length a)]])"
    then have i: "i \<le> length b" using len by simp
    have r: "tableUpTo a b (Suc k) ! i = (if i \<le> Suc k then tableRow a b i else [i])"
      using i unfolding tableUpTo_def by (simp add: nth_map_upt del: upt_Suc)
    show "?m[Suc k := map (tableEntry a b (Suc k)) [0..<Suc (length a)]] ! i
          = tableUpTo a b (Suc k) ! i"
    proof (cases "i = Suc k")
      case True
      then show ?thesis using 1 r by (simp add: tableRow_def)
    next
      case False
      then show ?thesis using nth [OF i] r by auto
    qed
  qed
  finally show ?thesis .
qed

lemma fillMatrix_prefix:
  "k \<le> length b \<Longrightarrow> fold (fillRow a b) [1..<Suc k] (tableUpTo a b 0) = tableUpTo a b k"
proof (induction k)
  case 0
  then show ?case by simp
next
  case (Suc k)
  have "[1..<Suc (Suc k)] = [1..<Suc k] @ [Suc k]" by simp
  then show ?case using Suc fillRow_tableUpTo [of k b a] by (simp del: upt_Suc)
qed

lemma initRow_fold:
  assumes "m \<noteq> []" "m ! 0 = [0]"
  shows "fold (\<lambda>j m. setCell m 0 j j) [0..<Suc n] m = m[0 := [0..<Suc n]]"
proof (induction n)
  case 0
  show ?case using assms by (simp add: setCell_def assign_def)
next
  case (Suc n)
  have "[0..<Suc (Suc n)] = [0..<Suc n] @ [Suc n]" by simp
  then show ?case using Suc assms by (simp add: setCell_def assign_def del: upt_Suc)
qed

lemma init_table: "initRow (initColumn (length b)) (length a) = tableUpTo a b 0"
proof -
  let ?c = "initColumn (length b)"
  have ne: "?c \<noteq> []" by (simp add: initColumn_def)
  have z: "?c ! 0 = [0]" unfolding initColumn_def by (simp add: nth_map_upt del: upt_Suc)
  have "initRow ?c (length a) = ?c[0 := [0..<Suc (length a)]]"
    unfolding initRow_def using initRow_fold [OF ne z] .
  also have "\<dots> = tableUpTo a b 0"
  proof (rule nth_equalityI)
    show "length (?c[0 := [0..<Suc (length a)]]) = length (tableUpTo a b 0)"
      by (simp add: initColumn_def tableUpTo_def)
  next
    fix i assume "i < length (?c[0 := [0..<Suc (length a)]])"
    then have i: "i \<le> length b" by (simp add: initColumn_def)
    have row0: "tableRow a b 0 = [0..<Suc (length a)]"
      unfolding tableRow_def
      by (rule nth_equalityI) (simp_all add: nth_map_upt tableEntry_0_top less_Suc_eq_le del: upt_Suc)
    show "?c[0 := [0..<Suc (length a)]] ! i = tableUpTo a b 0 ! i"
      using i row0 unfolding tableUpTo_def initColumn_def
      by (cases i) (simp_all add: nth_map_upt del: upt_Suc)
  qed
  finally show ?thesis .
qed

lemma levenshtein_dist: "levenshteinDistance a b = dist (rev a) (rev b)"
proof (cases "a = [] \<or> b = []")
  case True
  then show ?thesis by (auto simp add: levenshteinDistance_def dist_Nil2)
next
  case False
  have "fillMatrix a b (initRow (initColumn (length b)) (length a)) = tableUpTo a b (length b)"
    unfolding fillMatrix_def init_table using fillMatrix_prefix [of "length b" b a] by simp
  moreover have "tableUpTo a b (length b) ! length b = tableRow a b (length b)"
    unfolding tableUpTo_def by (simp add: nth_map_upt del: upt_Suc)
  ultimately have "levenshteinDistance a b = tableEntry a b (length b) (length a)"
    using False by (simp add: levenshteinDistance_def tableRow_nth)
  then show ?thesis by (simp add: tableEntry_def)
qed


lemma dist_sym: "dist xs ys = dist ys xs"
  by (induction xs ys rule: dist.induct) (simp_all add: dist_Nil2 min.commute min.left_commute)

lemma dist_refl: "dist xs xs = 0"
  by (induction xs) simp_all

lemma dist_Cons_Cons_le: "dist (a # xs) (c # ys) \<le> Suc (dist xs ys)"
  by simp

text \<open>One more character on one side changes the distance by at most one.\<close>

lemma dist_grow_shrink:
  "(\<forall>c. dist x (c # y) \<le> Suc (dist x y)) \<and> (\<forall>a. dist x y \<le> Suc (dist (a # x) y))"
proof (induction "length x + length y" arbitrary: x y rule: less_induct)
  case less
  have grow: "dist x (c # y) \<le> Suc (dist x y)" for c
  proof (cases x)
    case Nil
    then show ?thesis by simp
  next
    case (Cons a xs)
    have "dist xs y \<le> Suc (dist (a # xs) y)"
      using less [of xs y] Cons by simp
    then show ?thesis using Cons by (auto simp add: min_def)
  qed
  have shrink: "dist x y \<le> Suc (dist (a # x) y)" for a
  proof (cases y)
    case Nil
    then show ?thesis by (simp add: dist_Nil2)
  next
    case (Cons c ys)
    have g: "dist x (c # ys) \<le> Suc (dist x ys)"
      using less [of x ys] Cons by simp
    have s: "dist x ys \<le> Suc (dist (a # x) ys)"
      using less [of x ys] Cons by simp
    show ?thesis using Cons g s by (auto simp add: min_def)
  qed
  from grow shrink show ?case by blast
qed

lemma dist_insert2: "dist x (c # y) \<le> Suc (dist x y)"
  using dist_grow_shrink [of x y] by blast

lemma dist_delete1: "dist x y \<le> Suc (dist (a # x) y)"
  using dist_grow_shrink [of x y] by blast

lemma dist_insert1: "dist (a # x) y \<le> Suc (dist x y)"
  using dist_insert2 [of y a x] by (simp add: dist_sym)

lemma dist_delete2: "dist x y \<le> Suc (dist x (c # y))"
  using dist_delete1 [of y x c] by (simp add: dist_sym)


lemma edit_from_Nil: "edit [] z \<Longrightarrow> \<exists>c. z = [c]"
  by (erule edit.cases) auto

lemma edit_to_Nil: "edit y [] \<Longrightarrow> \<exists>c. y = [c]"
  by (erule edit.cases) auto

lemma edit_length: "edit y z \<Longrightarrow> length z \<le> Suc (length y)"
  by (erule edit.cases) auto

lemma edit_Cons: "edit y z \<Longrightarrow> edit (c # y) (c # z)"
proof (erule edit.cases)
  fix u v d assume "y = u @ v" "z = u @ d # v"
  then show ?thesis using insertion [of "c # u" v d] by simp
next
  fix u d v assume "y = u @ d # v" "z = u @ v"
  then show ?thesis using deletion [of "c # u" d v] by simp
next
  fix u d v e assume "y = u @ d # v" "z = u @ e # v"
  then show ?thesis using substitution [of "c # u" d v e] by simp
qed

lemma edit_heads:
  assumes "edit (b # ys) (c # zs)"
  shows "ys = c # zs \<or> zs = b # ys \<or> ys = zs \<or> (b = c \<and> edit ys zs)"
  using assms
proof (cases rule: edit.cases)
  case (insertion u v d)
  show ?thesis
  proof (cases u)
    case Nil
    then show ?thesis using insertion by simp
  next
    case (Cons p u')
    then have "b = c" "ys = u' @ v" "zs = u' @ d # v" using insertion by simp_all
    then show ?thesis using edit.insertion [of u' v d] by simp
  qed
next
  case (deletion u d v)
  show ?thesis
  proof (cases u)
    case Nil
    then show ?thesis using deletion by simp
  next
    case (Cons p u')
    then have "b = c" "ys = u' @ d # v" "zs = u' @ v" using deletion by simp_all
    then show ?thesis using edit.deletion [of u' d v] by simp
  qed
next
  case (substitution u d v e)
  show ?thesis
  proof (cases u)
    case Nil
    then show ?thesis using substitution by simp
  next
    case (Cons p u')
    then have "b = c" "ys = u' @ d # v" "zs = u' @ e # v" using substitution by simp_all
    then show ?thesis using edit.substitution [of u' d v e] by simp
  qed
qed

text \<open>One editing step on the second string changes the distance by at most one.\<close>

lemma dist_edit: "edit y z \<Longrightarrow> dist x z \<le> Suc (dist x y)"
proof (induction "length x + length y" arbitrary: x y z rule: less_induct)
  case less
  note step = less.prems
  show ?case
  proof (cases x)
    case Nil
    then show ?thesis using edit_length [OF step] by simp
  next
    case x: (Cons a xs)
    show ?thesis
    proof (cases y)
      case Nil
      then obtain c where "z = [c]" using step edit_from_Nil by blast
      then show ?thesis using Nil dist_insert2 [of x c "[]"] by simp
    next
      case y: (Cons b ys)
      show ?thesis
      proof (cases z)
        case Nil
        then obtain c where "y = [c]" using step edit_to_Nil by blast
        then show ?thesis using Nil dist_delete2 [of x "[]" c] by simp
      next
        case z: (Cons c zs)
        from step y z edit_heads [of b ys c zs]
        consider (del) "ys = c # zs" | (ins) "zs = b # ys" | (sub) "ys = zs"
          | (tail) "b = c" "edit ys zs"
          by blast
        then show ?thesis
        proof cases
          case del
          then show ?thesis using y z dist_delete2 [of x z b] by simp
        next
          case ins
          then show ?thesis using y z dist_insert2 [of x c y] by simp
        next
          case sub
          have e: "edit (b # ys) (c # ys)" using step y z sub by simp
          have ih: "dist xs (c # ys) \<le> Suc (dist xs (b # ys))"
            using less.hyps [of xs "b # ys" "c # ys"] e x y by simp
          define L where "L = dist (a # xs) (c # ys)"
          define A where "A = dist xs ys"
          define B where "B = dist (a # xs) ys"
          define C where "C = dist xs (b # ys)"
          have l1: "L \<le> Suc A" unfolding L_def A_def by simp
          have l2: "L \<le> Suc B" unfolding L_def B_def by (rule dist_insert2)
          have l3: "L \<le> Suc (Suc C)"
            using dist_insert1 [of a xs "c # ys"] ih unfolding L_def C_def by linarith
          have r: "dist (a # xs) (b # ys) = (if a = b then A else Suc (min A (min B C)))"
            unfolding A_def B_def C_def by simp
          have "L \<le> Suc (dist (a # xs) (b # ys))"
            unfolding r using l1 l2 l3 by (simp add: min_def)
          then show ?thesis using x y z sub unfolding L_def by simp
        next
          case tail
          have i1: "dist xs zs \<le> Suc (dist xs ys)"
            using less.hyps [of xs ys zs] tail x y by simp
          have i2: "dist (a # xs) zs \<le> Suc (dist (a # xs) ys)"
            using less.hyps [of "a # xs" ys zs] tail x y by simp
          have i3: "dist xs (b # zs) \<le> Suc (dist xs (b # ys))"
            using less.hyps [of xs "b # ys" "b # zs"] edit_Cons [OF tail(2), of b] x y by simp
          show ?thesis
          proof (cases "a = b")
            case True
            then show ?thesis using x y z tail i1 by simp
          next
            case False
            then show ?thesis using x y z tail i1 i2 i3 by (simp add: min_def)
          qed
        qed
      qed
    qed
  qed
qed

lemma edits_SucI: "edits n x z \<Longrightarrow> edit z y \<Longrightarrow> edits (Suc n) x y"
  unfolding edits.simps by blast

lemma edits_SucE: "edits (Suc n) x y \<Longrightarrow> \<exists>z. edits n x z \<and> edit z y"
  unfolding edits.simps by blast

lemma edits_lower: "edits n x y \<Longrightarrow> dist x y \<le> n"
proof (induction n arbitrary: y)
  case 0
  then show ?case by (simp add: dist_refl)
next
  case (Suc n)
  from edits_SucE [OF Suc.prems] obtain z where z: "edits n x z" "edit z y" by blast
  from Suc.IH [OF z(1)] dist_edit [OF z(2), of x] show ?case by linarith
qed


lemma edits_Cons: "edits n x y \<Longrightarrow> edits n (c # x) (c # y)"
proof (induction n arbitrary: y)
  case 0
  then show ?case by simp
next
  case (Suc n)
  from edits_SucE [OF Suc.prems] obtain z where z: "edits n x z" "edit z y" by blast
  show ?case
    by (rule edits_SucI [OF Suc.IH [OF z(1)] edit_Cons [OF z(2)]])
qed

lemma edits_after: "edit x z \<Longrightarrow> edits n z y \<Longrightarrow> edits (Suc n) x y"
proof (induction n arbitrary: y)
  case 0
  then have "z = y" by simp
  moreover have "edits 0 x x" by simp
  ultimately show ?case using edits_SucI [of 0 x x y] "0.prems"(1) by simp
next
  case (Suc n)
  from edits_SucE [OF Suc.prems(2)] obtain w where w: "edits n z w" "edit w y" by blast
  show ?case
    by (rule edits_SucI [OF Suc.IH [OF Suc.prems(1) w(1)] w(2)])
qed

lemma edits_from_Nil: "edits (length ys) [] ys"
proof (induction ys rule: rev_induct)
  case Nil
  then show ?case by simp
next
  case (snoc c ys)
  have "edit ys (ys @ [c])" using insertion [of ys "[]" c] by simp
  from edits_SucI [OF snoc this] show ?case by simp
qed

lemma edits_to_Nil: "edits (length xs) xs []"
proof (induction xs)
  case Nil
  then show ?case by simp
next
  case (Cons x xs)
  have "edit (x # xs) xs" using deletion [of "[]" x xs] by simp
  from edits_after [OF this Cons] show ?case by simp
qed

lemma edits_upper: "edits (dist x y) x y"
proof (induction x y rule: dist.induct)
  case (1 ys)
  then show ?case using edits_from_Nil by simp
next
  case (2 x xs)
  then show ?case using edits_to_Nil [of "x # xs"] by simp
next
  case (3 x xs y ys)
  show ?case
  proof (cases "x = y")
    case True
    then show ?thesis using edits_Cons [OF 3(1) [OF True], of x] by simp
  next
    case False
    define A where "A = dist xs ys"
    define B where "B = dist (x # xs) ys"
    define C where "C = dist xs (y # ys)"
    have d: "dist (x # xs) (y # ys) = Suc (min A (min B C))"
      using False unfolding A_def B_def C_def by simp
    have a: "edits (Suc A) (x # xs) (y # ys)"
    proof -
      have "edits A (x # xs) (x # ys)" unfolding A_def by (rule edits_Cons [OF 3(2) [OF False]])
      moreover have "edit (x # ys) (y # ys)" using substitution [of "[]" x ys y] by simp
      ultimately show ?thesis by (rule edits_SucI)
    qed
    have b: "edits (Suc B) (x # xs) (y # ys)"
    proof -
      have "edits B (x # xs) ys" unfolding B_def by (rule 3(3) [OF False])
      moreover have "edit ys (y # ys)" using insertion [of "[]" ys y] by simp
      ultimately show ?thesis by (rule edits_SucI)
    qed
    have c: "edits (Suc C) (x # xs) (y # ys)"
    proof -
      have e: "edits C xs (y # ys)" unfolding C_def by (rule 3(4) [OF False])
      have "edit (x # xs) xs" using deletion [of "[]" x xs] by simp
      from edits_after [OF this e] show ?thesis .
    qed
    show ?thesis unfolding d using a b c by (simp add: min_def)
  qed
qed

lemma edit_rev: "edit x y \<Longrightarrow> edit (rev x) (rev y)"
proof (erule edit.cases)
  fix u v c assume "x = u @ v" "y = u @ c # v"
  then show ?thesis using insertion [of "rev v" "rev u" c] by simp
next
  fix u c v assume "x = u @ c # v" "y = u @ v"
  then show ?thesis using deletion [of "rev v" c "rev u"] by simp
next
  fix u c v d assume "x = u @ c # v" "y = u @ d # v"
  then show ?thesis using substitution [of "rev v" c "rev u" d] by simp
qed

lemma edits_rev: "edits n x y \<Longrightarrow> edits n (rev x) (rev y)"
proof (induction n arbitrary: y)
  case 0
  then show ?case by simp
next
  case (Suc n)
  from edits_SucE [OF Suc.prems] obtain z where z: "edits n x z" "edit z y" by blast
  show ?case
    by (rule edits_SucI [OF Suc.IH [OF z(1)] edit_rev [OF z(2)]])
qed






lemma kitten_sitting: "levenshteinDistance ''kitten'' ''sitting'' = 3"
  by (simp add: levenshtein_dist)

text \<open>
  C9. \<open>levenshteinDistance a b\<close> is the least number of single-character insertions,
  deletions and substitutions that lead from \<open>a\<close> to \<open>b\<close>: that many steps do lead
  from \<open>a\<close> to \<open>b\<close>, and no smaller number of steps does. The distance from a string to
  itself is zero, the distance is the same in both directions, and the distance between
  ``kitten'' and ``sitting'' is three.
\<close>

theorem levenshtein_is_edit_distance:
  "edits (levenshteinDistance a b) a b
   \<and> (\<forall>n. edits n a b \<longrightarrow> levenshteinDistance a b \<le> n)
   \<and> levenshteinDistance a a = 0
   \<and> levenshteinDistance a b = levenshteinDistance b a
   \<and> levenshteinDistance ''kitten'' ''sitting'' = 3"
proof -
  have "edits (dist (rev a) (rev b)) (rev (rev a)) (rev (rev b))"
    by (rule edits_rev [OF edits_upper])
  then have u: "edits (levenshteinDistance a b) a b" by (simp add: levenshtein_dist)
  have l: "\<forall>n. edits n a b \<longrightarrow> levenshteinDistance a b \<le> n"
  proof (intro allI impI)
    fix n assume "edits n a b"
    from edits_lower [OF edits_rev [OF this]] show "levenshteinDistance a b \<le> n"
      by (simp add: levenshtein_dist)
  qed
  have r: "levenshteinDistance a a = 0" by (simp add: levenshtein_dist dist_refl)
  have s: "levenshteinDistance a b = levenshteinDistance b a"
    using dist_sym [of "rev a" "rev b"] by (simp add: levenshtein_dist)
  show ?thesis
    by (intro conjI) (rule u, rule l, rule r, rule s, rule kitten_sitting)
qed

theorem levenshtein_is_edit_distance_witness:
  "edits 3 ''kitten'' ''sitting'' \<and> levenshteinDistance ''kitten'' ''sitting'' \<le> 3
   \<and> \<not> edits 2 ''kitten'' ''sitting''"
proof -
  note t = levenshtein_is_edit_distance [of "''kitten''" "''sitting''"]
  have v: "levenshteinDistance ''kitten'' ''sitting'' = 3"
    by (rule t [THEN conjunct2, THEN conjunct2, THEN conjunct2, THEN conjunct2])
  have e: "edits 3 ''kitten'' ''sitting''"
    using t [THEN conjunct1] unfolding v .
  have "edits 3 ''kitten'' ''sitting'' \<longrightarrow> levenshteinDistance ''kitten'' ''sitting'' \<le> 3"
    by (rule t [THEN conjunct2, THEN conjunct1, THEN spec])
  with e have le: "levenshteinDistance ''kitten'' ''sitting'' \<le> 3" by blast
  have "edits 2 ''kitten'' ''sitting'' \<longrightarrow> levenshteinDistance ''kitten'' ''sitting'' \<le> 2"
    by (rule t [THEN conjunct2, THEN conjunct1, THEN spec])
  then have n: "\<not> edits 2 ''kitten'' ''sitting''" unfolding v by linarith
  show ?thesis by (intro conjI) (rule e, rule le, rule n)
qed



section \<open>Properties of episode and host search\<close>

subsection \<open>Substrings, sorting and slices\<close>

lemma startsWith_iff: "startsWith s p \<longleftrightarrow> (\<exists>v. s = p @ v)"
  by (induction p arbitrary: s) (auto split: list.splits)

lemma str_includes_iff: "str_includes s sub \<longleftrightarrow> (\<exists>u v. s = u @ sub @ v)"
proof (induction s)
  case Nil
  then show ?case by auto
next
  case (Cons c cs)
  show ?case
  proof
    assume "str_includes (c # cs) sub"
    then consider "startsWith (c # cs) sub" | "str_includes cs sub" by auto
    then show "\<exists>u v. c # cs = u @ sub @ v"
    proof cases
      case 1
      then obtain v where "c # cs = sub @ v" using startsWith_iff by blast
      then have "c # cs = [] @ sub @ v" by simp
      then show ?thesis by blast
    next
      case 2
      then obtain u v where "cs = u @ sub @ v" using Cons.IH by blast
      then have "c # cs = (c # u) @ sub @ v" by simp
      then show ?thesis by blast
    qed
  next
    assume "\<exists>u v. c # cs = u @ sub @ v"
    then obtain u v where uv: "c # cs = u @ sub @ v" by blast
    show "str_includes (c # cs) sub"
    proof (cases u)
      case Nil
      then have "startsWith (c # cs) sub" using uv startsWith_iff [of "c # cs" sub] by auto
      then show ?thesis by simp
    next
      case (Cons d u')
      then have "cs = u' @ sub @ v" using uv by simp
      then have "str_includes cs sub" using Cons.IH by blast
      then show ?thesis by simp
    qed
  qed
qed

lemma mset_insert_by: "mset (insert_by cmp x xs) = add_mset x (mset xs)"
  by (induction xs) simp_all

lemma mset_sort_by: "mset (sort_by cmp xs) = mset xs"
  unfolding sort_by_def by (induction xs) (simp_all add: mset_insert_by)

lemma set_sort_by: "set (sort_by cmp xs) = set xs"
  using mset_sort_by [of cmp xs] by (metis set_mset_mset)

lemma length_sort_by: "length (sort_by cmp xs) = length xs"
  using mset_sort_by [of cmp xs] by (metis size_mset)

lemma set_insert_by: "set (insert_by cmp x xs) = insert x (set xs)"
  using mset_insert_by [of cmp x xs] by (metis set_mset_mset set_mset_add_mset_insert)

lemma consistent_total:
  "consistent S cmp \<Longrightarrow> x \<in> S \<Longrightarrow> y \<in> S \<Longrightarrow> cmp x y \<le> 0 \<or> cmp y x \<le> 0"
  unfolding consistent_def by blast

lemma consistent_trans:
  "consistent S cmp \<Longrightarrow> x \<in> S \<Longrightarrow> y \<in> S \<Longrightarrow> z \<in> S \<Longrightarrow>
   cmp x y \<le> 0 \<Longrightarrow> cmp y z \<le> 0 \<Longrightarrow> cmp x z \<le> 0"
  unfolding consistent_def by blast

lemma consistent_subset: "consistent S cmp \<Longrightarrow> T \<subseteq> S \<Longrightarrow> consistent T cmp"
  unfolding consistent_def by blast

lemma sorted_insert_by:
  assumes "consistent (insert x (set xs)) cmp" "sorted_wrt (\<lambda>a b. cmp a b \<le> 0) xs"
  shows "sorted_wrt (\<lambda>a b. cmp a b \<le> 0) (insert_by cmp x xs)"
  using assms
proof (induction xs)
  case Nil
  then show ?case by simp
next
  case (Cons y ys)
  let ?S = "insert x (set (y # ys))"
  have xS: "x \<in> ?S" and yS: "y \<in> ?S" by simp_all
  have sub: "consistent (insert x (set ys)) cmp"
    by (rule consistent_subset [OF Cons.prems(1)]) auto
  have tail: "sorted_wrt (\<lambda>a b. cmp a b \<le> 0) ys" using Cons.prems(2) by simp
  have yz: "cmp y z \<le> 0" if "z \<in> set ys" for z using Cons.prems(2) that by simp
  show ?case
  proof (cases "cmp x y \<le> 0")
    case True
    have "cmp x z \<le> 0" if z: "z \<in> set ys" for z
    proof -
      have zS: "z \<in> ?S" using z by simp
      show ?thesis
        by (rule consistent_trans [OF Cons.prems(1) xS yS zS True yz [OF z]])
    qed
    then show ?thesis using True Cons.prems(2) by simp
  next
    case False
    then have yx: "cmp y x \<le> 0"
      using consistent_total [OF Cons.prems(1) xS yS] by blast
    have "sorted_wrt (\<lambda>a b. cmp a b \<le> 0) (insert_by cmp x ys)"
      by (rule Cons.IH [OF sub tail])
    moreover have "\<forall>z \<in> set (insert_by cmp x ys). cmp y z \<le> 0"
      using yx yz by (simp add: set_insert_by)
    ultimately show ?thesis using False by simp
  qed
qed

lemma sorted_sort_by:
  "consistent (set xs) cmp \<Longrightarrow> sorted_wrt (\<lambda>a b. cmp a b \<le> 0) (sort_by cmp xs)"
proof (induction xs)
  case Nil
  then show ?case by (simp add: sort_by_def)
next
  case (Cons x xs)
  have "consistent (set xs) cmp"
    by (rule consistent_subset [OF Cons.prems]) auto
  then have s: "sorted_wrt (\<lambda>a b. cmp a b \<le> 0) (sort_by cmp xs)" using Cons.IH by blast
  have c: "consistent (insert x (set (sort_by cmp xs))) cmp"
    using Cons.prems by (simp add: set_sort_by)
  have "sort_by cmp (x # xs) = insert_by cmp x (sort_by cmp xs)" by (simp add: sort_by_def)
  then show ?case using sorted_insert_by [OF c s] by simp
qed

lemma slice_from_0:
  "slice xs 0 l = take (if l < 0 then length xs - nat (- l) else nat l) xs"
proof (cases "l < 0")
  case True
  have "nat (int (length xs) - (- l)) = nat (int (length xs)) - nat (- l)"
    using True by (intro nat_diff_distrib') simp_all
  then have n: "nat (int (length xs) + l) = length xs - nat (- l)" by simp
  have "nat (max (int (length xs) + l) 0) = nat (int (length xs) + l)"
    by (cases "int (length xs) + l \<le> 0") (simp_all add: max_def)
  with n have "nat (max (int (length xs) + l) 0) = length xs - nat (- l)" by simp
  then show ?thesis using True by (simp add: slice_def Let_def)
next
  case False
  have "take (nat (min l (int (length xs)))) xs = take (nat l) xs"
    by (cases "l \<le> int (length xs)") (simp_all add: min_def)
  then show ?thesis using False by (simp add: slice_def Let_def)
qed


subsection \<open>Episode search\<close>

lemma splitSpaces_nonempty: "splitSpaces r cur s \<noteq> []"
  by (induction s arbitrary: r cur) simp_all

lemma fold_minstep:
  "fold (\<lambda>word m.
           (let distance = f word in
            case m of None \<Rightarrow> Some distance
            | Some md \<Rightarrow> if distance < md then Some distance else Some md))
        ws (Some (m::nat)) = Some (fold min (map f ws) m)"
proof (induction ws arbitrary: m)
  case Nil
  then show ?case by simp
next
  case (Cons w ws)
  show ?case
  proof (cases "f w < m")
    case True
    then have "min (f w) m = f w" by simp
    then show ?thesis using Cons [of "f w"] True by (simp add: Let_def)
  next
    case False
    then have "min (f w) m = m" by simp
    then show ?thesis using Cons [of m] False by (simp add: Let_def)
  qed
qed

lemma minDistance_Cons:
  "minDistance q (w # ws) = Some (Min (levenshteinDistance q ` set (w # ws)))"
proof -
  have "minDistance q (w # ws)
        = Some (fold min (map (levenshteinDistance q) ws) (levenshteinDistance q w))"
    unfolding minDistance_def using fold_minstep [of "levenshteinDistance q" ws] by simp
  also have "fold min (map (levenshteinDistance q) ws) (levenshteinDistance q w)
        = Min (set (levenshteinDistance q w # map (levenshteinDistance q) ws))"
    by (rule Min.set_eq_fold [symmetric])
  finally show ?thesis by simp
qed

lemma titleDistance_eq: "titleDistance query ep = Some (wordDistance query ep)"
proof -
  obtain w ws where "titleWords ep = w # ws"
    using splitSpaces_nonempty [of False "[]" "toLowerCase (title ep)"]
    by (cases "titleWords ep") (simp_all add: titleWords_def)
  then show ?thesis
    unfolding titleDistance_def wordDistance_def using minDistance_Cons by simp
qed

lemma mset_fuzzyResults:
  "mset (fuzzyResults eps query opts) =
   mset (map (\<lambda>ep. \<lparr>item = ep, matchType = ''fuzzy'',
                      matchDistance = Some (wordDistance query ep)\<rparr>)
          (filter (\<lambda>ep. matchesFilters opts ep \<and>
                        int (wordDistance query ep) \<le> maxDistance opts) eps))"
proof -
  have "filter (\<lambda>result. withinDistance (maxDistance opts) (snd result))
          (map (\<lambda>ep. (ep, titleDistance query ep)) (filter (matchesFilters opts) eps))
      = map (\<lambda>ep. (ep, titleDistance query ep))
          (filter (\<lambda>ep. matchesFilters opts ep \<and>
                        int (wordDistance query ep) \<le> maxDistance opts) eps)"
    by (induction eps) (simp_all add: titleDistance_eq withinDistance_def)
  moreover have "mset (map g (sort_by c xs)) = mset (map g xs)" for g :: "episode \<times> nat option \<Rightarrow> episode match" and c xs
    using mset_sort_by [of c xs] by (metis mset_map)
  ultimately show ?thesis
    unfolding fuzzyResults_def by (simp add: titleDistance_eq multiset.map_comp comp_def)
qed

lemma mset_exactResults:
  "exactResults eps query opts =
   map (\<lambda>ep. \<lparr>item = ep, matchType = ''exact'', matchDistance = None\<rparr>)
     (filter (\<lambda>ep. matchesQuery query ep \<and> matchesFilters opts ep) eps)"
  by (simp add: exactResults_def)

lemma trim_nonempty: "trim query \<noteq> [] \<Longrightarrow> query \<noteq> []"
  by (auto simp add: trim_def)

lemma fuzzyRuns_iff:
  "fuzzyRuns eps query opts \<longleftrightarrow>
     (\<forall>ep \<in> set eps. \<not> (matchesQuery query ep \<and> matchesFilters opts ep)) \<and> trim query \<noteq> []"
proof -
  have "exactResults eps query opts = [] \<longleftrightarrow>
        (\<forall>ep \<in> set eps. \<not> (matchesQuery query ep \<and> matchesFilters opts ep))"
    by (simp add: exactResults_def filter_empty_conv)
  then show ?thesis using trim_nonempty [of query] by (auto simp add: fuzzyRuns_def)
qed

lemma mset_sortedResults:
  "mset (sortedResults eps query opts) = mset (unsortedResults eps query opts)"
  by (simp add: sortedResults_def mset_sort_by)

lemma fuzzy_tagged:
  "r \<in> set (fuzzyResults eps query opts) \<Longrightarrow>
   matchType r = ''fuzzy'' \<and> matchDistance r = Some (wordDistance query (item r))"
proof -
  assume "r \<in> set (fuzzyResults eps query opts)"
  then have "r \<in># mset (fuzzyResults eps query opts)" by simp
  then show ?thesis unfolding mset_fuzzyResults by auto
qed

lemma exact_tagged:
  "r \<in> set (exactResults eps query opts) \<Longrightarrow> matchType r = ''exact'' \<and> matchDistance r = None"
  by (auto simp add: exactResults_def)

lemma compareResults_fuzzy:
  assumes "matchType a = ''fuzzy''" "matchType b = ''fuzzy''"
    "matchDistance a = Some da" "matchDistance b = Some db"
  shows "compareResults a b \<le> 0 \<longleftrightarrow> da < db \<or> (da = db \<and> date (item b) \<le> date (item a))"
  using assms by (auto simp add: compareResults_def distanceOr0_def localeCompare_def Let_def)

lemma compareResults_exact:
  assumes "matchType a = ''exact''"
  shows "compareResults a b \<le> 0 \<longleftrightarrow> date (item b) \<le> date (item a)"
  using assms by (auto simp add: compareResults_def localeCompare_def Let_def)


lemma lex_total:
  fixes x1 y1 :: "'a::linorder" and x2 y2 :: "'b::linorder"
  shows "(x1 < y1 \<or> (x1 = y1 \<and> y2 \<le> x2)) \<or> (y1 < x1 \<or> (y1 = x1 \<and> x2 \<le> y2))"
proof -
  have "x1 < y1 \<or> x1 = y1 \<or> y1 < x1" by (rule less_linear)
  moreover have "y2 \<le> x2 \<or> x2 \<le> y2" by (rule linear)
  ultimately show ?thesis by blast
qed

lemma lex_trans:
  fixes x1 y1 z1 :: "'a::linorder" and x2 y2 z2 :: "'b::linorder"
  assumes "x1 < y1 \<or> (x1 = y1 \<and> y2 \<le> x2)" "y1 < z1 \<or> (y1 = z1 \<and> z2 \<le> y2)"
  shows "x1 < z1 \<or> (x1 = z1 \<and> z2 \<le> x2)"
proof -
  consider "x1 < y1" "y1 < z1" | "x1 < y1" "y1 = z1" | "x1 = y1" "y1 < z1"
    | "x1 = y1" "y1 = z1" "y2 \<le> x2" "z2 \<le> y2"
    using assms by blast
  then show ?thesis
  proof cases
    case 1
    then show ?thesis using less_trans by blast
  next
    case 2
    then show ?thesis by simp
  next
    case 3
    then show ?thesis by simp
  next
    case 4
    then show ?thesis using order_trans [of z2 y2 x2] by simp
  qed
qed

lemma consistent_fuzzy:
  assumes "\<forall>r \<in> S. matchType r = ''fuzzy'' \<and> (\<exists>d. matchDistance r = Some d)"
  shows "consistent S compareResults"
proof -
  have le: "compareResults a b \<le> 0 \<longleftrightarrow>
      the (matchDistance a) < the (matchDistance b) \<or>
      (the (matchDistance a) = the (matchDistance b) \<and> date (item b) \<le> date (item a))"
    if "a \<in> S" "b \<in> S" for a b
  proof -
    from assms that(1) obtain da where ta: "matchType a = ''fuzzy''"
      and da: "matchDistance a = Some da" by blast
    from assms that(2) obtain db where tb: "matchType b = ''fuzzy''"
      and db: "matchDistance b = Some db" by blast
    show ?thesis using compareResults_fuzzy [OF ta tb da db] by (simp only: da db option.sel)
  qed
  have total: "compareResults a b \<le> 0 \<or> compareResults b a \<le> 0" if "a \<in> S" "b \<in> S" for a b
    unfolding le [OF that] le [OF that(2) that(1)] by (rule lex_total)
  have trans: "compareResults a c \<le> 0"
    if "a \<in> S" "b \<in> S" "c \<in> S" "compareResults a b \<le> 0" "compareResults b c \<le> 0" for a b c
    using that(4) that(5)
    unfolding le [OF that(1) that(2)] le [OF that(2) that(3)] le [OF that(1) that(3)]
    by (rule lex_trans)
  show ?thesis unfolding consistent_def
  proof (intro conjI ballI impI)
    fix x y assume "x \<in> S" "y \<in> S"
    then show "compareResults x y \<le> 0 \<or> compareResults y x \<le> 0" by (rule total)
  next
    fix x y z assume "x \<in> S" "y \<in> S" "z \<in> S" "compareResults x y \<le> 0" "compareResults y z \<le> 0"
    then show "compareResults x z \<le> 0" by (rule trans)
  qed
qed

lemma consistent_exact:
  assumes "\<forall>r \<in> S. matchType r = ''exact''"
  shows "consistent S compareResults"
proof -
  have le: "compareResults a b \<le> 0 \<longleftrightarrow> date (item b) \<le> date (item a)" if "a \<in> S" for a b
  proof -
    from assms that have "matchType a = ''exact''" by blast
    then show ?thesis by (rule compareResults_exact)
  qed
  show ?thesis unfolding consistent_def
  proof (intro conjI ballI impI)
    fix x y assume "x \<in> S" "y \<in> S"
    then show "compareResults x y \<le> 0 \<or> compareResults y x \<le> 0"
      using le [of x y] le [of y x] linear [of "date (item y)" "date (item x)"] by blast
  next
    fix x y z assume "x \<in> S" "y \<in> S" "z \<in> S" "compareResults x y \<le> 0" "compareResults y z \<le> 0"
    then show "compareResults x z \<le> 0"
      using le [of x y] le [of y z] le [of x z]
        order_trans [of "date (item z)" "date (item y)" "date (item x)"] by blast
  qed
qed

lemma sorted_fuzzy:
  assumes "fuzzyRuns eps query opts"
  shows "sorted_wrt (\<lambda>a b. the (matchDistance a) < the (matchDistance b) \<or>
            (the (matchDistance a) = the (matchDistance b) \<and> date (item b) \<le> date (item a)))
          (sortedResults eps query opts)"
proof -
  let ?xs = "unsortedResults eps query opts"
  have eq: "?xs = fuzzyResults eps query opts" using assms by (simp add: unsortedResults_def)
  have tagged: "\<forall>r \<in> set ?xs. matchType r = ''fuzzy'' \<and> (\<exists>d. matchDistance r = Some d)"
    unfolding eq using fuzzy_tagged [of _ eps query opts] by blast
  have s: "sorted_wrt (\<lambda>a b. compareResults a b \<le> 0) (sortedResults eps query opts)"
    unfolding sortedResults_def by (rule sorted_sort_by [OF consistent_fuzzy [OF tagged]])
  show ?thesis
  proof (rule sorted_wrt_mono_rel [OF _ s])
    fix a b
    assume a: "a \<in> set (sortedResults eps query opts)"
      and b: "b \<in> set (sortedResults eps query opts)"
      and le: "compareResults a b \<le> 0"
    have "a \<in> set ?xs" "b \<in> set ?xs" using a b by (simp_all add: sortedResults_def set_sort_by)
    then obtain da db where d: "matchDistance a = Some da" "matchDistance b = Some db"
      and t: "matchType a = ''fuzzy''" "matchType b = ''fuzzy''"
      using tagged by blast
    from compareResults_fuzzy [OF t d] le
    show "the (matchDistance a) < the (matchDistance b) \<or>
          (the (matchDistance a) = the (matchDistance b) \<and> date (item b) \<le> date (item a))"
      by (simp only: d option.sel)
  qed
qed

lemma sorted_exact:
  assumes "\<not> fuzzyRuns eps query opts"
  shows "sorted_wrt (\<lambda>a b. date (item b) \<le> date (item a)) (sortedResults eps query opts)"
proof -
  let ?xs = "unsortedResults eps query opts"
  have eq: "?xs = exactResults eps query opts" using assms by (simp add: unsortedResults_def)
  have tagged: "\<forall>r \<in> set ?xs. matchType r = ''exact''"
    unfolding eq using exact_tagged [of _ eps query opts] by blast
  have s: "sorted_wrt (\<lambda>a b. compareResults a b \<le> 0) (sortedResults eps query opts)"
    unfolding sortedResults_def by (rule sorted_sort_by [OF consistent_exact [OF tagged]])
  show ?thesis
  proof (rule sorted_wrt_mono_rel [OF _ s])
    fix a b
    assume a: "a \<in> set (sortedResults eps query opts)" and le: "compareResults a b \<le> 0"
    have "a \<in> set ?xs" using a by (simp add: sortedResults_def set_sort_by)
    then have "matchType a = ''exact''" using tagged by blast
    from compareResults_exact [OF this, of b] le
    show "date (item b) \<le> date (item a)" by blast
  qed
qed

lemma set_slice_subset: "set (slice xs 0 l) \<subseteq> set xs"
  unfolding slice_from_0 by (rule set_take_subset)

lemma matchesQuery_iff:
  "matchesQuery query ep \<longleftrightarrow>
     query = [] \<or>
     (\<exists>field \<in> {title ep, summary ep, tags ep, episode_notes ep}.
        \<exists>u v. toLowerCase field = u @ toLowerCase query @ v)"
  unfolding matchesQuery_def str_includes_iff by blast



subsection \<open>The small corpus, evaluated\<close>

lemmas lev_defs = levenshteinDistance_def fillMatrix_def fillRow_def initRow_def
  initColumn_def setCell_def assign_def cell_def

lemmas string_defs = toLowerCase_def lower_char_def trim_def is_space_def localeCompare_def

lemmas episode_defs = episodeA_def episodeB_def episodeC_def episodeShort_def

lemmas host_defs = hostKlaatu_def hostKen_def

lemma no_filters: "matchesFilters (default_episode_options\<lparr>limit := l\<rparr>) ep"
  by (simp add: matchesFilters_def default_episode_options_def falsy_num_def falsy_str_def)

lemma no_filters_default: "matchesFilters default_episode_options ep"
  by (simp add: matchesFilters_def default_episode_options_def falsy_num_def falsy_str_def)

lemma maxDistance_default:
  "maxDistance default_episode_options = 3"
  "maxDistance (default_episode_options\<lparr>limit := l\<rparr>) = 3"
  "limit default_episode_options = 20"
  by (simp_all add: default_episode_options_def)

lemma corpus_fields:
  "date episodeA = ''2020-01-01''" "date episodeB = ''2021-06-15''"
  "date episodeC = ''2022-03-09''"
  "episode_id episodeA = 1" "episode_id episodeB = 2" "episode_id episodeC = 3"
  by (simp_all add: episode_defs)

lemma linx_query:
  "\<not> matchesQuery ''linx'' episodeA" "\<not> matchesQuery ''linx'' episodeB"
  "\<not> matchesQuery ''linx'' episodeC"
  by (simp_all add: matchesQuery_def episode_defs string_defs)

lemma linx_distance:
  "titleDistance ''linx'' episodeA = Some 1" "titleDistance ''linx'' episodeB = Some 2"
  "titleDistance ''linx'' episodeC = Some 1"
  by (simp_all add: titleDistance_def titleWords_def minDistance_def episode_defs string_defs
      lev_defs)

lemma linux_query:
  "matchesQuery ''linux'' episodeA" "\<not> matchesQuery ''linux'' episodeB"
  "matchesQuery ''linux'' episodeC"
  by (simp_all add: matchesQuery_def episode_defs string_defs)

lemma blank_query:
  "\<not> matchesQuery '' '' episodeShort" "titleDistance '' '' episodeShort = Some 3"
  by (simp_all add: matchesQuery_def titleDistance_def titleWords_def minDistance_def
      episode_defs string_defs lev_defs)

lemma trimmed: "trim ''linx'' = ''linx''" "trim ''linux'' = ''linux''" "trim '' '' = []"
  by (simp_all add: string_defs)

lemmas episode_search_defs = searchEpisodes_def sortedResults_def unsortedResults_def
  fuzzyRuns_def exactResults_def fuzzyResults_def withinDistance_def distanceOr0_def
  compareDistance_def compareResults_def sort_by_def slice_def localeCompare_def

lemma klattu_hosts:
  "\<not> hostMatchesExactly ''klattu'' hostKlaatu" "\<not> hostMatchesExactly ''klattu'' hostKen"
  "hostDistance ''klattu'' hostKlaatu = 1" "hostDistance ''klattu'' hostKen = 5"
  by (simp_all add: hostMatchesExactly_def hostDistance_def host_defs string_defs lev_defs)

lemma ken_hosts:
  "\<not> hostMatchesExactly ''ken'' hostKlaatu" "hostMatchesExactly ''ken'' hostKen"
  by (simp_all add: hostMatchesExactly_def host_defs string_defs)

lemma xyzabc_hosts:
  "\<not> hostMatchesExactly ''xyzabc'' hostKlaatu" "\<not> hostMatchesExactly ''xyzabc'' hostKen"
  "hostDistance ''xyzabc'' hostKlaatu = 5" "hostDistance ''xyzabc'' hostKen = 6"
  by (simp_all add: hostMatchesExactly_def hostDistance_def host_defs string_defs lev_defs)

lemmas host_search_defs = searchHosts_def exactMatches_def fuzzyMatches_def
  withinDistance_def distanceOr0_def compareDistance_def sort_by_def


text \<open>
  C4, as the code has it. The fuzzy pass runs if and only if no episode passes both the
  exact test and the filters and the query has a character that is not white space (a
  query of blanks only does not start it). The exact test is that the query is empty or
  its lower-cased form is a substring of the lower-cased title, summary, tags or notes.
  When the fuzzy pass runs, the results before truncation are, as a multiset, the filtered
  episodes whose least distance between the lower-cased query and a word of the
  lower-cased title is at most \<open>maxDistance\<close>, each tagged fuzzy with that distance;
  when it does not run they are the episodes that pass the exact test and the filters,
  each tagged exact. So whenever an episode matches exactly, every returned result is
  tagged exact.
\<close>

theorem fuzzy_fallback:
  "(fuzzyRuns (episodes dl) query opts \<longleftrightarrow>
      (\<forall>ep \<in> set (episodes dl). \<not> (matchesQuery query ep \<and> matchesFilters opts ep))
      \<and> trim query \<noteq> [])
   \<and> (matchesQuery query ep \<longleftrightarrow>
        query = [] \<or>
        (\<exists>field \<in> {title ep, summary ep, tags ep, episode_notes ep}.
           \<exists>u v. toLowerCase field = u @ toLowerCase query @ v))
   \<and> (fuzzyRuns (episodes dl) query opts \<longrightarrow>
        mset (sortedResults (episodes dl) query opts) =
        mset (map (\<lambda>ep. \<lparr>item = ep, matchType = ''fuzzy'',
                           matchDistance = Some (wordDistance query ep)\<rparr>)
               (filter (\<lambda>ep. matchesFilters opts ep \<and>
                             int (wordDistance query ep) \<le> maxDistance opts)
                  (episodes dl))))
   \<and> (\<not> fuzzyRuns (episodes dl) query opts \<longrightarrow>
        mset (sortedResults (episodes dl) query opts) =
        mset (map (\<lambda>ep. \<lparr>item = ep, matchType = ''exact'', matchDistance = None\<rparr>)
               (filter (\<lambda>ep. matchesQuery query ep \<and> matchesFilters opts ep)
                  (episodes dl))))
   \<and> ((\<exists>ep \<in> set (episodes dl). matchesQuery query ep \<and> matchesFilters opts ep) \<longrightarrow>
        (\<forall>r \<in> set (searchEpisodes dl query opts). matchType r = ''exact''))
   \<and> searchEpisodes dl query opts = slice (sortedResults (episodes dl) query opts) 0 (limit opts)"
proof -
  let ?eps = "episodes dl"
  have a: "fuzzyRuns ?eps query opts \<longleftrightarrow>
      (\<forall>ep \<in> set ?eps. \<not> (matchesQuery query ep \<and> matchesFilters opts ep)) \<and> trim query \<noteq> []"
    by (rule fuzzyRuns_iff)
  have b: "matchesQuery query ep \<longleftrightarrow>
        query = [] \<or>
        (\<exists>field \<in> {title ep, summary ep, tags ep, episode_notes ep}.
           \<exists>u v. toLowerCase field = u @ toLowerCase query @ v)"
    by (rule matchesQuery_iff)
  have c: "fuzzyRuns ?eps query opts \<longrightarrow>
        mset (sortedResults ?eps query opts) =
        mset (map (\<lambda>ep. \<lparr>item = ep, matchType = ''fuzzy'',
                           matchDistance = Some (wordDistance query ep)\<rparr>)
               (filter (\<lambda>ep. matchesFilters opts ep \<and>
                             int (wordDistance query ep) \<le> maxDistance opts) ?eps))"
    using mset_fuzzyResults [of ?eps query opts]
    by (simp add: mset_sortedResults unsortedResults_def)
  have d: "\<not> fuzzyRuns ?eps query opts \<longrightarrow>
        mset (sortedResults ?eps query opts) =
        mset (map (\<lambda>ep. \<lparr>item = ep, matchType = ''exact'', matchDistance = None\<rparr>)
               (filter (\<lambda>ep. matchesQuery query ep \<and> matchesFilters opts ep) ?eps))"
    by (simp add: mset_sortedResults unsortedResults_def exactResults_def)
  have e: "(\<exists>ep \<in> set ?eps. matchesQuery query ep \<and> matchesFilters opts ep) \<longrightarrow>
        (\<forall>r \<in> set (searchEpisodes dl query opts). matchType r = ''exact'')"
  proof (intro impI ballI)
    fix r
    assume ex: "\<exists>ep \<in> set ?eps. matchesQuery query ep \<and> matchesFilters opts ep"
      and r: "r \<in> set (searchEpisodes dl query opts)"
    from ex have nf: "\<not> fuzzyRuns ?eps query opts" unfolding fuzzyRuns_iff by blast
    have "set (searchEpisodes dl query opts) \<subseteq> set (sortedResults ?eps query opts)"
      unfolding searchEpisodes_def by (rule set_slice_subset)
    with r have "r \<in> set (sortedResults ?eps query opts)" by blast
    then have "r \<in> set (exactResults ?eps query opts)"
      using nf by (simp add: sortedResults_def set_sort_by unsortedResults_def)
    then show "matchType r = ''exact''" using exact_tagged [of r ?eps query opts] by blast
  qed
  have f: "searchEpisodes dl query opts = slice (sortedResults ?eps query opts) 0 (limit opts)"
    by (simp add: searchEpisodes_def)
  show ?thesis
    by (intro conjI) (rule a, rule b, rule c, rule d, rule e, rule f)
qed

theorem fuzzy_fallback_witness:
  "fuzzyRuns (episodes corpus) ''linx'' default_episode_options
   \<and> mset (sortedResults (episodes corpus) ''linx'' default_episode_options) =
       mset (map (\<lambda>ep. \<lparr>item = ep, matchType = ''fuzzy'',
                          matchDistance = Some (wordDistance ''linx'' ep)\<rparr>)
              (filter (\<lambda>ep. matchesFilters default_episode_options ep \<and>
                    int (wordDistance ''linx'' ep) \<le> maxDistance default_episode_options)
                 (episodes corpus)))
   \<and> map (\<lambda>r. (episode_id (item r), matchType r, matchDistance r))
         (searchEpisodes corpus ''linx'' default_episode_options)
       = [(3, ''fuzzy'', Some 1), (1, ''fuzzy'', Some 1), (2, ''fuzzy'', Some 2)]
   \<and> \<not> fuzzyRuns (episodes corpus) ''linux'' default_episode_options
   \<and> matchesQuery ''linux'' episodeA
   \<and> matchesFilters default_episode_options episodeA
   \<and> map (\<lambda>r. (episode_id (item r), matchType r, matchDistance r))
         (searchEpisodes corpus ''linux'' default_episode_options)
       = [(3, ''exact'', None), (1, ''exact'', None)]"
proof -
  note t1 = fuzzy_fallback [of corpus "''linx''" default_episode_options episodeA]
  note t2 = fuzzy_fallback [of corpus "''linux''" default_episode_options episodeA]
  have h1: "fuzzyRuns (episodes corpus) ''linx'' default_episode_options"
    by (simp add: corpus_def episode_search_defs no_filters_default linx_query trimmed)
  have h2: "\<not> fuzzyRuns (episodes corpus) ''linux'' default_episode_options"
    by (simp add: corpus_def episode_search_defs no_filters_default linux_query)
  have c1: "mset (sortedResults (episodes corpus) ''linx'' default_episode_options) =
       mset (map (\<lambda>ep. \<lparr>item = ep, matchType = ''fuzzy'',
                          matchDistance = Some (wordDistance ''linx'' ep)\<rparr>)
              (filter (\<lambda>ep. matchesFilters default_episode_options ep \<and>
                    int (wordDistance ''linx'' ep) \<le> maxDistance default_episode_options)
                 (episodes corpus)))"
    using t1 h1 by blast
  have q: "matchesQuery ''linux'' episodeA"
    by (rule linux_query)
  have fl: "matchesFilters default_episode_options episodeA"
    by (rule no_filters_default)
  have "episodeA \<in> set (episodes corpus)" by (simp add: corpus_def)
  with q fl t2 have ex: "\<forall>r \<in> set (searchEpisodes corpus ''linux'' default_episode_options).
      matchType r = ''exact''" by blast
  have v1: "map (\<lambda>r. (episode_id (item r), matchType r, matchDistance r))
         (searchEpisodes corpus ''linx'' default_episode_options)
       = [(3, ''fuzzy'', Some 1), (1, ''fuzzy'', Some 1), (2, ''fuzzy'', Some 2)]"
    by (simp add: corpus_def episode_search_defs no_filters_default linx_query linx_distance
        trimmed maxDistance_default corpus_fields Let_def)
  have v2: "map (\<lambda>r. (episode_id (item r), matchType r, matchDistance r))
         (searchEpisodes corpus ''linux'' default_episode_options)
       = [(3, ''exact'', None), (1, ''exact'', None)]"
    by (simp add: corpus_def episode_search_defs no_filters_default linux_query
        trimmed maxDistance_default corpus_fields Let_def)
  show ?thesis
    by (intro conjI) (rule h1, rule c1, rule v1, rule h2, rule q, rule fl, rule v2)
qed

text \<open>
  C4 as it is written fails for a query that is not empty but blank: with the query of
  one space no episode of the corpus matches exactly, the single episode passes the
  filters and the least distance to a word of its title is 3, within the default
  threshold, yet the fuzzy pass does not run and the result is empty.
\<close>

theorem blank_query_counterexample:
  "exactResults (episodes shortCorpus) '' '' default_episode_options = []
   \<and> '' '' \<noteq> []
   \<and> matchesFilters default_episode_options episodeShort
   \<and> titleDistance '' '' episodeShort = Some 3
   \<and> withinDistance (maxDistance default_episode_options) (titleDistance '' '' episodeShort)
   \<and> \<not> fuzzyRuns (episodes shortCorpus) '' '' default_episode_options
   \<and> searchEpisodes shortCorpus '' '' default_episode_options = []"
  by (simp add: shortCorpus_def episode_search_defs no_filters_default blank_query trimmed
      maxDistance_default Let_def)

text \<open>
  C5. The list before truncation is a rearrangement of the results found. When the fuzzy
  pass ran, every result is tagged fuzzy and the list is ordered by ascending distance
  and, among equal distances, by descending date; otherwise every result is tagged exact
  and the list is ordered by descending date. The returned list is a prefix of this
  sorted list: its first \<open>limit\<close> elements (for a negative \<open>limit\<close>, all but the last
  \<open>-limit\<close>, as \<open>slice\<close> counts from the end).
\<close>

theorem results_sorted_then_truncated:
  "mset (sortedResults (episodes dl) query opts) = mset (unsortedResults (episodes dl) query opts)
   \<and> (fuzzyRuns (episodes dl) query opts \<longrightarrow>
        (\<forall>r \<in> set (sortedResults (episodes dl) query opts).
            matchType r = ''fuzzy'' \<and> matchDistance r = Some (wordDistance query (item r)))
        \<and> sorted_wrt (\<lambda>a b. the (matchDistance a) < the (matchDistance b) \<or>
              (the (matchDistance a) = the (matchDistance b) \<and> date (item b) \<le> date (item a)))
            (sortedResults (episodes dl) query opts))
   \<and> (\<not> fuzzyRuns (episodes dl) query opts \<longrightarrow>
        (\<forall>r \<in> set (sortedResults (episodes dl) query opts). matchType r = ''exact'')
        \<and> sorted_wrt (\<lambda>a b. date (item b) \<le> date (item a))
            (sortedResults (episodes dl) query opts))
   \<and> searchEpisodes dl query opts =
       take (if limit opts < 0
             then length (sortedResults (episodes dl) query opts) - nat (- limit opts)
             else nat (limit opts))
         (sortedResults (episodes dl) query opts)"
proof -
  let ?eps = "episodes dl"
  have a: "mset (sortedResults ?eps query opts) = mset (unsortedResults ?eps query opts)"
    by (rule mset_sortedResults)
  have b: "fuzzyRuns ?eps query opts \<longrightarrow>
        (\<forall>r \<in> set (sortedResults ?eps query opts).
            matchType r = ''fuzzy'' \<and> matchDistance r = Some (wordDistance query (item r)))
        \<and> sorted_wrt (\<lambda>a b. the (matchDistance a) < the (matchDistance b) \<or>
              (the (matchDistance a) = the (matchDistance b) \<and> date (item b) \<le> date (item a)))
            (sortedResults ?eps query opts)"
  proof
    assume f: "fuzzyRuns ?eps query opts"
    have "set (sortedResults ?eps query opts) = set (fuzzyResults ?eps query opts)"
      using f by (simp add: sortedResults_def set_sort_by unsortedResults_def)
    then have "\<forall>r \<in> set (sortedResults ?eps query opts).
            matchType r = ''fuzzy'' \<and> matchDistance r = Some (wordDistance query (item r))"
      using fuzzy_tagged [of _ ?eps query opts] by blast
    then show "(\<forall>r \<in> set (sortedResults ?eps query opts).
            matchType r = ''fuzzy'' \<and> matchDistance r = Some (wordDistance query (item r)))
        \<and> sorted_wrt (\<lambda>a b. the (matchDistance a) < the (matchDistance b) \<or>
              (the (matchDistance a) = the (matchDistance b) \<and> date (item b) \<le> date (item a)))
            (sortedResults ?eps query opts)"
      using sorted_fuzzy [OF f] by blast
  qed
  have c: "\<not> fuzzyRuns ?eps query opts \<longrightarrow>
        (\<forall>r \<in> set (sortedResults ?eps query opts). matchType r = ''exact'')
        \<and> sorted_wrt (\<lambda>a b. date (item b) \<le> date (item a)) (sortedResults ?eps query opts)"
  proof
    assume f: "\<not> fuzzyRuns ?eps query opts"
    have "set (sortedResults ?eps query opts) = set (exactResults ?eps query opts)"
      using f by (simp add: sortedResults_def set_sort_by unsortedResults_def)
    then have "\<forall>r \<in> set (sortedResults ?eps query opts). matchType r = ''exact''"
      using exact_tagged [of _ ?eps query opts] by blast
    then show "(\<forall>r \<in> set (sortedResults ?eps query opts). matchType r = ''exact'')
        \<and> sorted_wrt (\<lambda>a b. date (item b) \<le> date (item a)) (sortedResults ?eps query opts)"
      using sorted_exact [OF f] by blast
  qed
  have d: "searchEpisodes dl query opts =
       take (if limit opts < 0
             then length (sortedResults ?eps query opts) - nat (- limit opts)
             else nat (limit opts))
         (sortedResults ?eps query opts)"
    unfolding searchEpisodes_def by (rule slice_from_0)
  show ?thesis by (intro conjI) (rule a, rule b, rule c, rule d)
qed

theorem results_sorted_then_truncated_witness:
  "fuzzyRuns (episodes corpus) ''linx'' (default_episode_options\<lparr>limit := 2\<rparr>)
   \<and> sorted_wrt (\<lambda>a b. the (matchDistance a) < the (matchDistance b) \<or>
          (the (matchDistance a) = the (matchDistance b) \<and> date (item b) \<le> date (item a)))
        (sortedResults (episodes corpus) ''linx'' (default_episode_options\<lparr>limit := 2\<rparr>))
   \<and> map (\<lambda>r. (episode_id (item r), date (item r), matchDistance r))
         (sortedResults (episodes corpus) ''linx'' (default_episode_options\<lparr>limit := 2\<rparr>))
       = [(3, ''2022-03-09'', Some 1), (1, ''2020-01-01'', Some 1), (2, ''2021-06-15'', Some 2)]
   \<and> map (\<lambda>r. episode_id (item r))
         (searchEpisodes corpus ''linx'' (default_episode_options\<lparr>limit := 2\<rparr>)) = [3, 1]
   \<and> \<not> fuzzyRuns (episodes corpus) [] (default_episode_options\<lparr>limit := 2\<rparr>)
   \<and> sorted_wrt (\<lambda>a b. date (item b) \<le> date (item a))
        (sortedResults (episodes corpus) [] (default_episode_options\<lparr>limit := 2\<rparr>))
   \<and> map (\<lambda>r. episode_id (item r))
         (sortedResults (episodes corpus) [] (default_episode_options\<lparr>limit := 2\<rparr>)) = [3, 2, 1]
   \<and> map (\<lambda>r. episode_id (item r))
         (searchEpisodes corpus [] (default_episode_options\<lparr>limit := 2\<rparr>)) = [3, 2]"
proof -
  let ?o = "default_episode_options\<lparr>limit := 2\<rparr>"
  note t1 = results_sorted_then_truncated [of corpus "''linx''" ?o]
  note t2 = results_sorted_then_truncated [of corpus "[]" ?o]
  have h1: "fuzzyRuns (episodes corpus) ''linx'' ?o"
    by (simp add: corpus_def episode_search_defs no_filters linx_query trimmed)
  have h2: "\<not> fuzzyRuns (episodes corpus) [] ?o"
    by (simp add: corpus_def episode_search_defs)
  have s1: "sorted_wrt (\<lambda>a b. the (matchDistance a) < the (matchDistance b) \<or>
          (the (matchDistance a) = the (matchDistance b) \<and> date (item b) \<le> date (item a)))
        (sortedResults (episodes corpus) ''linx'' ?o)"
    using t1 h1 by blast
  have s2: "sorted_wrt (\<lambda>a b. date (item b) \<le> date (item a))
        (sortedResults (episodes corpus) [] ?o)"
    using t2 h2 by blast
  have v1: "map (\<lambda>r. (episode_id (item r), date (item r), matchDistance r))
         (sortedResults (episodes corpus) ''linx'' ?o)
       = [(3, ''2022-03-09'', Some 1), (1, ''2020-01-01'', Some 1), (2, ''2021-06-15'', Some 2)]"
    by (simp add: corpus_def episode_search_defs no_filters linx_query linx_distance
        trimmed maxDistance_default corpus_fields Let_def)
  have v2: "map (\<lambda>r. episode_id (item r)) (searchEpisodes corpus ''linx'' ?o) = [3, 1]"
    by (simp add: corpus_def episode_search_defs no_filters linx_query linx_distance
        trimmed maxDistance_default corpus_fields Let_def)
  have v3: "map (\<lambda>r. episode_id (item r)) (sortedResults (episodes corpus) [] ?o) = [3, 2, 1]"
    by (simp add: corpus_def episode_search_defs no_filters matchesQuery_def
        corpus_fields Let_def)
  have v4: "map (\<lambda>r. episode_id (item r)) (searchEpisodes corpus [] ?o) = [3, 2]"
    by (simp add: corpus_def episode_search_defs no_filters matchesQuery_def
        corpus_fields Let_def)
  show ?thesis
    by (intro conjI) (rule h1, rule s1, rule v1, rule v2, rule h2, rule s2, rule v3, rule v4)
qed


subsection \<open>Host search\<close>

lemma compareDistance_le:
  "compareDistance a b \<le> 0 \<longleftrightarrow> distanceOr0 (snd a) \<le> distanceOr0 (snd b)"
  by (simp add: compareDistance_def)

lemma consistent_compareDistance: "consistent S compareDistance"
  unfolding consistent_def compareDistance_le by auto

lemma hostMatchesExactly_iff:
  "hostMatchesExactly query h \<longleftrightarrow>
     (\<exists>u v. toLowerCase (host h) = u @ toLowerCase query @ v) \<or>
     (\<exists>u v. toLowerCase (email h) = u @ toLowerCase query @ v)"
  unfolding hostMatchesExactly_def str_includes_iff by (rule refl)

lemma filter_within_hosts:
  "filter (\<lambda>result. withinDistance maxd (snd result))
     (map (\<lambda>h. (h, Some (hostDistance query h))) hs)
   = map (\<lambda>h. (h, Some (hostDistance query h)))
       (filter (\<lambda>h. int (hostDistance query h) \<le> maxd) hs)"
  by (induction hs) (simp_all add: withinDistance_def)

lemma mset_fuzzyMatches:
  "mset (fuzzyMatches hs query maxd) =
   mset (map (\<lambda>h. \<lparr>item = h, matchType = ''fuzzy'', matchDistance = Some (hostDistance query h)\<rparr>)
          (filter (\<lambda>h. int (hostDistance query h) \<le> maxd) hs))"
proof -
  have "mset (map g (sort_by c xs)) = mset (map g xs)"
    for g :: "host \<times> nat option \<Rightarrow> host match" and c xs
    using mset_sort_by [of c xs] by (metis mset_map)
  then show ?thesis
    unfolding fuzzyMatches_def filter_within_hosts
    by (simp add: multiset.map_comp comp_def)
qed

lemma sorted_fuzzyMatches:
  "sorted_wrt (\<lambda>a b. distanceOr0 (matchDistance a) \<le> distanceOr0 (matchDistance b))
     (fuzzyMatches hs query maxd)"
proof -
  let ?xs = "filter (\<lambda>result. withinDistance maxd (snd result))
               (map (\<lambda>h. (h, Some (hostDistance query h))) hs)"
  have "sorted_wrt (\<lambda>a b. compareDistance a b \<le> 0) (sort_by compareDistance ?xs)"
    by (rule sorted_sort_by [OF consistent_compareDistance])
  then have "sorted_wrt (\<lambda>a b. distanceOr0 (snd a) \<le> distanceOr0 (snd b))
      (sort_by compareDistance ?xs)"
    unfolding compareDistance_le .
  then show ?thesis
    unfolding fuzzyMatches_def by (simp add: sorted_wrt_map)
qed

lemma fuzzyMatches_tagged:
  assumes "r \<in> set (fuzzyMatches hs query maxd)"
  shows "matchType r = ''fuzzy'' \<and> matchDistance r = Some (hostDistance query (item r))"
proof -
  from assms have "r \<in># mset (fuzzyMatches hs query maxd)" by simp
  then show ?thesis unfolding mset_fuzzyMatches by auto
qed

lemma exactMatches_tagged:
  "r \<in> set (exactMatches hs query) \<Longrightarrow> matchType r = ''exact''"
  by (auto simp add: exactMatches_def)

lemma exactMatches_empty:
  "exactMatches hs query = [] \<longleftrightarrow> \<not> (\<exists>h \<in> set hs. hostMatchesExactly query h)"
  by (simp add: exactMatches_def filter_empty_conv)

text \<open>
  C6. The results of \<open>searchHosts\<close> are all tagged exact or all tagged fuzzy. A host
  matches exactly when the lower-cased query is a substring of its lower-cased name or
  email; if some host does, the result is those hosts, in order, tagged exact. Otherwise
  the result is, as a multiset, the hosts whose distance is at most the threshold, each
  tagged fuzzy with that distance, in ascending order of distance; the distance of a host
  is the smaller of the distances from the lower-cased query to its lower-cased name and
  to its lower-cased email.
\<close>

theorem searchHosts_exact_or_fuzzy:
  "((\<forall>r \<in> set (searchHosts dl query maxd). matchType r = ''exact'') \<or>
    (\<forall>r \<in> set (searchHosts dl query maxd). matchType r = ''fuzzy''))
   \<and> (hostMatchesExactly query h \<longleftrightarrow>
        (\<exists>u v. toLowerCase (host h) = u @ toLowerCase query @ v) \<or>
        (\<exists>u v. toLowerCase (email h) = u @ toLowerCase query @ v))
   \<and> ((\<exists>h \<in> set (hosts dl). hostMatchesExactly query h) \<longrightarrow>
        searchHosts dl query maxd =
        map (\<lambda>h. \<lparr>item = h, matchType = ''exact'', matchDistance = None\<rparr>)
          (filter (hostMatchesExactly query) (hosts dl)))
   \<and> (\<not> (\<exists>h \<in> set (hosts dl). hostMatchesExactly query h) \<longrightarrow>
        mset (searchHosts dl query maxd) =
        mset (map (\<lambda>h. \<lparr>item = h, matchType = ''fuzzy'',
                          matchDistance = Some (hostDistance query h)\<rparr>)
               (filter (\<lambda>h. int (hostDistance query h) \<le> maxd) (hosts dl)))
        \<and> sorted_wrt (\<lambda>a b. the (matchDistance a) \<le> the (matchDistance b))
            (searchHosts dl query maxd))
   \<and> hostDistance query h =
       min (levenshteinDistance (toLowerCase query) (toLowerCase (host h)))
           (levenshteinDistance (toLowerCase query) (toLowerCase (email h)))"
proof -
  let ?hs = "hosts dl"
  have a: "(\<forall>r \<in> set (searchHosts dl query maxd). matchType r = ''exact'') \<or>
    (\<forall>r \<in> set (searchHosts dl query maxd). matchType r = ''fuzzy'')"
  proof (cases "length (exactMatches ?hs query) > 0")
    case True
    then have "searchHosts dl query maxd = exactMatches ?hs query" by (simp add: searchHosts_def)
    then show ?thesis using exactMatches_tagged [of _ ?hs query] by simp
  next
    case False
    then have "searchHosts dl query maxd = fuzzyMatches ?hs query maxd"
      by (simp add: searchHosts_def)
    then show ?thesis using fuzzyMatches_tagged [of _ ?hs query maxd] by simp
  qed
  have b: "hostMatchesExactly query h \<longleftrightarrow>
        (\<exists>u v. toLowerCase (host h) = u @ toLowerCase query @ v) \<or>
        (\<exists>u v. toLowerCase (email h) = u @ toLowerCase query @ v)"
    by (rule hostMatchesExactly_iff)
  have c: "(\<exists>h \<in> set ?hs. hostMatchesExactly query h) \<longrightarrow>
        searchHosts dl query maxd =
        map (\<lambda>h. \<lparr>item = h, matchType = ''exact'', matchDistance = None\<rparr>)
          (filter (hostMatchesExactly query) ?hs)"
  proof
    assume "\<exists>h \<in> set ?hs. hostMatchesExactly query h"
    then have "exactMatches ?hs query \<noteq> []" using exactMatches_empty [of ?hs query] by blast
    then show "searchHosts dl query maxd =
        map (\<lambda>h. \<lparr>item = h, matchType = ''exact'', matchDistance = None\<rparr>)
          (filter (hostMatchesExactly query) ?hs)"
      by (simp add: searchHosts_def exactMatches_def)
  qed
  have d: "\<not> (\<exists>h \<in> set ?hs. hostMatchesExactly query h) \<longrightarrow>
        mset (searchHosts dl query maxd) =
        mset (map (\<lambda>h. \<lparr>item = h, matchType = ''fuzzy'',
                          matchDistance = Some (hostDistance query h)\<rparr>)
               (filter (\<lambda>h. int (hostDistance query h) \<le> maxd) ?hs))
        \<and> sorted_wrt (\<lambda>a b. the (matchDistance a) \<le> the (matchDistance b))
            (searchHosts dl query maxd)"
  proof
    assume "\<not> (\<exists>h \<in> set ?hs. hostMatchesExactly query h)"
    then have "exactMatches ?hs query = []" using exactMatches_empty [of ?hs query] by blast
    then have eq: "searchHosts dl query maxd = fuzzyMatches ?hs query maxd"
      by (simp add: searchHosts_def)
    have s: "sorted_wrt (\<lambda>a b. the (matchDistance a) \<le> the (matchDistance b))
        (fuzzyMatches ?hs query maxd)"
    proof (rule sorted_wrt_mono_rel [OF _ sorted_fuzzyMatches])
      fix a b
      assume a: "a \<in> set (fuzzyMatches ?hs query maxd)"
        and b: "b \<in> set (fuzzyMatches ?hs query maxd)"
        and le: "distanceOr0 (matchDistance a) \<le> distanceOr0 (matchDistance b)"
      from fuzzyMatches_tagged [OF a] fuzzyMatches_tagged [OF b] le
      show "the (matchDistance a) \<le> the (matchDistance b)"
        by (simp add: distanceOr0_def)
    qed
    show "mset (searchHosts dl query maxd) =
        mset (map (\<lambda>h. \<lparr>item = h, matchType = ''fuzzy'',
                          matchDistance = Some (hostDistance query h)\<rparr>)
               (filter (\<lambda>h. int (hostDistance query h) \<le> maxd) ?hs))
        \<and> sorted_wrt (\<lambda>a b. the (matchDistance a) \<le> the (matchDistance b))
            (searchHosts dl query maxd)"
      unfolding eq using mset_fuzzyMatches [of ?hs query maxd] s by blast
  qed
  have e: "hostDistance query h =
       min (levenshteinDistance (toLowerCase query) (toLowerCase (host h)))
           (levenshteinDistance (toLowerCase query) (toLowerCase (email h)))"
    by (simp add: hostDistance_def)
  show ?thesis by (intro conjI) (rule a, rule b, rule c, rule d, rule e)
qed

theorem searchHosts_exact_or_fuzzy_witness:
  "hostKen \<in> set (hosts corpus) \<and> hostMatchesExactly ''ken'' hostKen
   \<and> searchHosts corpus ''ken'' 2 = [\<lparr>item = hostKen, matchType = ''exact'', matchDistance = None\<rparr>]
   \<and> \<not> hostMatchesExactly ''klattu'' hostKlaatu \<and> \<not> hostMatchesExactly ''klattu'' hostKen
   \<and> sorted_wrt (\<lambda>a b. the (matchDistance a) \<le> the (matchDistance b))
        (searchHosts corpus ''klattu'' 2)
   \<and> searchHosts corpus ''klattu'' 2 =
        [\<lparr>item = hostKlaatu, matchType = ''fuzzy'', matchDistance = Some 1\<rparr>]
   \<and> searchHosts corpus ''xyzabc'' 2 = []"
proof -
  note t1 = searchHosts_exact_or_fuzzy [of corpus "''ken''" 2 hostKen]
  note t2 = searchHosts_exact_or_fuzzy [of corpus "''klattu''" 2 hostKen]
  have m: "hostKen \<in> set (hosts corpus)" by (simp add: corpus_def)
  have h1: "hostMatchesExactly ''ken'' hostKen"
    by (rule ken_hosts)
  have n1: "\<not> hostMatchesExactly ''klattu'' hostKlaatu"
    by (rule klattu_hosts)
  have n2: "\<not> hostMatchesExactly ''klattu'' hostKen"
    by (rule klattu_hosts)
  have none: "\<not> (\<exists>h \<in> set (hosts corpus). hostMatchesExactly ''klattu'' h)"
    using n1 n2 by (simp add: corpus_def)
  from t1 m h1 have "searchHosts corpus ''ken'' 2 =
        map (\<lambda>h. \<lparr>item = h, matchType = ''exact'', matchDistance = None\<rparr>)
          (filter (hostMatchesExactly ''ken'') (hosts corpus))" by blast
  moreover have "\<not> hostMatchesExactly ''ken'' hostKlaatu"
    by (rule ken_hosts)
  ultimately have v1: "searchHosts corpus ''ken'' 2 =
      [\<lparr>item = hostKen, matchType = ''exact'', matchDistance = None\<rparr>]"
    using h1 by (simp add: corpus_def)
  from t2 none have s: "sorted_wrt (\<lambda>a b. the (matchDistance a) \<le> the (matchDistance b))
        (searchHosts corpus ''klattu'' 2)" by blast
  have v2: "searchHosts corpus ''klattu'' 2 =
        [\<lparr>item = hostKlaatu, matchType = ''fuzzy'', matchDistance = Some 1\<rparr>]"
    by (simp add: corpus_def host_search_defs klattu_hosts)
  have v3: "searchHosts corpus ''xyzabc'' 2 = []"
    by (simp add: corpus_def host_search_defs xyzabc_hosts)
  show ?thesis by (intro conjI) (rule m, rule h1, rule v1, rule n1, rule n2, rule s, rule v2, rule v3)
qed


section \<open>Properties of the transcript search\<close>

lemma fold_testMatcher:
  "fold (testMatcher cs ww line) ms (ol, mt, hc) =
   (ol @ termsOnLine cs ww ms line,
    fold (\<lambda>t acc. setAdd acc t) (termsOnLine cs ww ms line) mt,
    fold (\<lambda>t acc. bump acc t) (termsOnLine cs ww ms line) hc)"
  by (induction ms arbitrary: ol mt hc) (simp_all add: termsOnLine_def testMatcher_def)

lemma scanLines_Cons:
  "scanLines cs ww ms ctx cap lines index (line # rest) st =
   (if int (length (matches_acc (stepLine cs ww ms ctx lines index line st))) \<ge> cap
    then (stepLine cs ww ms ctx lines index line st)\<lparr>truncated_acc := True\<rparr>
    else scanLines cs ww ms ctx cap lines (index + 1) rest
           (stepLine cs ww ms ctx lines index line st))"
  by (simp add: fold_testMatcher stepLine_def Let_def)

lemma lineMatches_terms: "lineMatches cs ww ms line \<longleftrightarrow> termsOnLine cs ww ms line \<noteq> []"
  by (simp add: lineMatches_def termsOnLine_def filter_empty_conv)

lemma length_stepLine:
  "length (matches_acc (stepLine cs ww ms ctx lines index line st)) =
   length (matches_acc st) + (if lineMatches cs ww ms line then 1 else 0)"
  by (simp add: stepLine_def lineMatches_terms)

lemma truncated_stepLine:
  "truncated_acc (stepLine cs ww ms ctx lines index line st) = truncated_acc st"
  by (simp add: stepLine_def)

declare scanLines.simps(2) [simp del]

lemma scan_count:
  assumes "1 \<le> cap" "int (length (matches_acc st)) < cap"
  shows "length (matches_acc (scanLines cs ww ms ctx cap lines index rest st)) =
           min (nat cap) (length (matches_acc st) + length (filter (lineMatches cs ww ms) rest))
       \<and> truncated_acc (scanLines cs ww ms ctx cap lines index rest st) =
           (truncated_acc st \<or>
            nat cap \<le> length (matches_acc st) + length (filter (lineMatches cs ww ms) rest))"
  using assms(2)
proof (induction rest arbitrary: index st)
  case Nil
  then show ?case by auto
next
  case (Cons line rest)
  let ?st1 = "stepLine cs ww ms ctx lines index line st"
  have len: "length (matches_acc ?st1) =
      length (matches_acc st) + (if lineMatches cs ww ms line then 1 else 0)"
    by (rule length_stepLine)
  show ?case
  proof (cases "int (length (matches_acc ?st1)) \<ge> cap")
    case True
    then have "scanLines cs ww ms ctx cap lines index (line # rest) st
        = ?st1\<lparr>truncated_acc := True\<rparr>"
      by (simp add: scanLines_Cons)
    moreover have "length (matches_acc ?st1) = nat cap"
      using True len Cons.prems by (auto split: if_splits)
    ultimately show ?thesis using len Cons.prems by (auto split: if_splits)
  next
    case False
    then have eq: "scanLines cs ww ms ctx cap lines index (line # rest) st
        = scanLines cs ww ms ctx cap lines (index + 1) rest ?st1"
      by (simp add: scanLines_Cons)
    have lt: "int (length (matches_acc ?st1)) < cap" using False by simp
    show ?thesis
      unfolding eq using Cons.IH [OF lt, of "index + 1"] len
      by (simp add: truncated_stepLine)
  qed
qed


lemma set_fold_setAdd: "set (fold (\<lambda>t acc. setAdd acc t) ts mt) = set mt \<union> set ts"
  by (induction ts arbitrary: mt) (auto simp add: setAdd_def)

lemma distinct_fold_setAdd:
  "distinct mt \<Longrightarrow> distinct (fold (\<lambda>t acc. setAdd acc t) ts mt)"
  by (induction ts arbitrary: mt) (auto simp add: setAdd_def)

lemma set_uniq: "set (uniq ts) = set ts"
  by (simp add: uniq_def set_fold_setAdd)

lemma termsRecorded_stepLine:
  assumes "termsRecorded st"
  shows "termsRecorded (stepLine cs ww ms ctx lines index line st)"
proof (cases "termsOnLine cs ww ms line = []")
  case True
  then show ?thesis using assms by (simp add: termsRecorded_def stepLine_def)
next
  case False
  then show ?thesis using assms
    by (simp add: termsRecorded_def stepLine_def set_fold_setAdd set_uniq distinct_fold_setAdd
        Un_commute)
qed

lemma termsRecorded_scan:
  "termsRecorded st \<Longrightarrow> termsRecorded (scanLines cs ww ms ctx cap lines index rest st)"
proof (induction rest arbitrary: index st)
  case Nil
  then show ?case by simp
next
  case (Cons line rest)
  let ?st1 = "stepLine cs ww ms ctx lines index line st"
  have s1: "termsRecorded ?st1" by (rule termsRecorded_stepLine [OF Cons.prems])
  then have "termsRecorded (?st1\<lparr>truncated_acc := True\<rparr>)" by (simp add: termsRecorded_def)
  then show ?case using Cons.IH [OF s1] by (simp add: scanLines_Cons)
qed

lemma lineTerms_stepLine:
  assumes "\<forall>m \<in> set (matches_acc st). set (lineTerms m) \<subseteq> set ms"
  shows "\<forall>m \<in> set (matches_acc (stepLine cs ww ms ctx lines index line st)).
           set (lineTerms m) \<subseteq> set ms"
  using assms by (auto simp add: stepLine_def set_uniq termsOnLine_def)

lemma lineTerms_scan:
  "\<forall>m \<in> set (matches_acc st). set (lineTerms m) \<subseteq> set ms \<Longrightarrow>
   \<forall>m \<in> set (matches_acc (scanLines cs ww ms ctx cap lines index rest st)).
      set (lineTerms m) \<subseteq> set ms"
proof (induction rest arbitrary: index st)
  case Nil
  then show ?case by simp
next
  case (Cons line rest)
  let ?st1 = "stepLine cs ww ms ctx lines index line st"
  have s1: "\<forall>m \<in> set (matches_acc ?st1). set (lineTerms m) \<subseteq> set ms"
    by (rule lineTerms_stepLine [OF Cons.prems])
  then show ?case using Cons.IH [OF s1] by (simp add: scanLines_Cons)
qed

text \<open>Once the scan has stopped, the lines that follow are not read.\<close>

lemma scan_stops:
  assumes "\<not> truncated_acc st" "truncated_acc (scanLines cs ww ms ctx cap lines index xs st)"
  shows "scanLines cs ww ms ctx cap lines index (xs @ ys) st =
         scanLines cs ww ms ctx cap lines index xs st"
  using assms
proof (induction xs arbitrary: index st)
  case Nil
  then show ?case by simp
next
  case (Cons line xs)
  let ?st1 = "stepLine cs ww ms ctx lines index line st"
  show ?case
  proof (cases "int (length (matches_acc ?st1)) \<ge> cap")
    case True
    then show ?thesis by (simp add: scanLines_Cons)
  next
    case False
    have n: "\<not> truncated_acc ?st1" using Cons.prems(1) by (simp add: truncated_stepLine)
    have t: "truncated_acc (scanLines cs ww ms ctx cap lines (index + 1) xs ?st1)"
      using Cons.prems(2) False by (simp add: scanLines_Cons)
    show ?thesis using Cons.IH [OF n t] False by (simp add: scanLines_Cons)
  qed
qed

text \<open>The array of all lines is read for the context windows only.\<close>

lemma bare_stepLine:
  assumes "bare st = bare st'"
  shows "bare (stepLine cs ww ms ctx lines index line st) =
         bare (stepLine cs ww ms ctx lines' index line st')"
  using assms by (simp add: bare_def stepLine_def)

lemma bare_length:
  assumes "bare st = bare st'"
  shows "length (matches_acc st) = length (matches_acc st')"
proof -
  from assms have "map (\<lambda>m. (lineNumber m, lineTerms m)) (matches_acc st) =
      map (\<lambda>m. (lineNumber m, lineTerms m)) (matches_acc st')"
    by (simp add: bare_def)
  then show ?thesis by (rule map_eq_imp_length_eq)
qed

lemma bare_scan:
  assumes "bare st = bare st'"
  shows "bare (scanLines cs ww ms ctx cap lines index rest st) =
         bare (scanLines cs ww ms ctx cap lines' index rest st')"
  using assms
proof (induction rest arbitrary: index st st')
  case Nil
  then show ?case by simp
next
  case (Cons line rest)
  let ?a = "stepLine cs ww ms ctx lines index line st"
  let ?b = "stepLine cs ww ms ctx lines' index line st'"
  have ab: "bare ?a = bare ?b" by (rule bare_stepLine [OF Cons.prems])
  have len: "length (matches_acc ?a) = length (matches_acc ?b)" by (rule bare_length [OF ab])
  have tr: "bare (?a\<lparr>truncated_acc := True\<rparr>) = bare (?b\<lparr>truncated_acc := True\<rparr>)"
    using ab by (simp add: bare_def)
  show ?case using Cons.IH [OF ab] len tr by (simp add: scanLines_Cons)
qed

lemma summarize_bare: "bare st = bare st' \<Longrightarrow> summarize mode st = summarize mode st'"
  using bare_length [of st st'] by (simp add: summarize_def bare_def)

lemma scan_prefix:
  assumes "truncated_acc (scanLines cs ww ms ctx cap xs 0 xs initialScan)"
  shows "bare (scanLines cs ww ms ctx cap (xs @ ys) 0 (xs @ ys) initialScan) =
         bare (scanLines cs ww ms ctx cap xs 0 xs initialScan)"
proof -
  have n: "\<not> truncated_acc initialScan" by (simp add: initialScan_def)
  have "bare (scanLines cs ww ms ctx cap (xs @ ys) 0 xs initialScan) =
        bare (scanLines cs ww ms ctx cap xs 0 xs initialScan)"
    by (rule bare_scan) simp
  then have t: "truncated_acc (scanLines cs ww ms ctx cap (xs @ ys) 0 xs initialScan)"
    using assms by (simp add: bare_def)
  have "scanLines cs ww ms ctx cap (xs @ ys) 0 (xs @ ys) initialScan =
        scanLines cs ww ms ctx cap (xs @ ys) 0 xs initialScan"
    by (rule scan_stops [OF n t])
  then show ?thesis using bare_scan [of initialScan initialScan cs ww ms ctx cap "xs @ ys" 0 xs xs]
    by simp
qed

lemma transcriptLoop_eq:
  "transcriptLoop dl opts mode ms hostIds ts results =
   (if int (length results) \<ge> limit opts then results
    else results @ take (nat (limit opts) - length results)
           (List.map_filter (visitTranscript dl opts mode ms hostIds) ts))"
proof (induction ts arbitrary: results)
  case Nil
  then show ?case by (simp add: List.map_filter_simps)
next
  case (Cons entry ts)
  show ?case
  proof (cases "int (length results) \<ge> limit opts")
    case True
    then show ?thesis by simp
  next
    case False
    then have lt: "length results < nat (limit opts)" by linarith
    show ?thesis
    proof (cases "visitTranscript dl opts mode ms hostIds entry")
      case None
      then show ?thesis using False Cons.IH [of results] by (simp add: List.map_filter_simps)
    next
      case (Some r)
      have "nat (limit opts) - length results = Suc (nat (limit opts) - Suc (length results))"
        using lt by simp
      then show ?thesis using False Some Cons.IH [of "results @ [r]"] lt
        by (auto simp add: List.map_filter_simps)
    qed
  qed
qed

lemma searchTranscripts_eq:
  "searchTranscripts dl query opts =
   (if matchersOf query opts = [] then []
    else take (nat (limit opts))
           (List.map_filter
              (visitTranscript dl opts (resolvedMatchMode query opts) (matchersOf query opts)
                 (resolvedHostIds dl opts))
              (transcripts dl)))"
proof -
  have "matchersOf query opts = []" if "effectiveTerms query opts = []"
    using that by (simp add: matchersOf_def)
  then show ?thesis
    by (auto simp add: searchTranscripts_def transcriptLoop_eq)
qed


lemma termsRecorded_initial: "termsRecorded initialScan"
  by (simp add: termsRecorded_def initialScan_def)

lemma scanTranscript_lines:
  "scanTranscript cs ww ms ctx cap t =
   scanLines cs ww ms ctx cap (splitLines [] t) 0 (splitLines [] t) initialScan"
  by (simp add: scanTranscript_def Let_def)

lemma scan_count_initial:
  assumes "1 \<le> cap"
  shows "length (matches_acc (scanLines cs ww ms ctx cap lines 0 xs initialScan)) =
           min (nat cap) (length (filter (lineMatches cs ww ms) xs))
       \<and> truncated_acc (scanLines cs ww ms ctx cap lines 0 xs initialScan) =
           (nat cap \<le> length (filter (lineMatches cs ww ms) xs))"
proof -
  have "int (length (matches_acc initialScan)) < cap" using assms by (simp add: initialScan_def)
  from scan_count [OF assms this, of cs ww ms ctx lines 0 xs]
  show ?thesis by (simp add: initialScan_def)
qed

lemma scan_nonpositive_cap:
  "cap \<le> 0 \<Longrightarrow>
   scanLines cs ww ms ctx cap lines index (line # rest) st =
   (stepLine cs ww ms ctx lines index line st)\<lparr>truncated_acc := True\<rparr>"
  by (simp add: scanLines_Cons)

lemma some_line_matches:
  "length (filter (lineMatches cs ww ms) xs) > 0 \<longleftrightarrow> (\<exists>line \<in> set xs. lineMatches cs ww ms line)"
  by (simp add: filter_empty_conv)

lemma matches_iff_line:
  assumes "1 \<le> cap"
  shows "matches_acc (scanTranscript cs ww ms ctx cap t) \<noteq> [] \<longleftrightarrow>
         (\<exists>line \<in> set (splitLines [] t). lineMatches cs ww ms line)"
proof -
  let ?xs = "splitLines [] t"
  let ?n = "length (filter (lineMatches cs ww ms) ?xs)"
  have "length (matches_acc (scanTranscript cs ww ms ctx cap t)) = min (nat cap) ?n"
    unfolding scanTranscript_lines using scan_count_initial [OF assms, of cs ww ms ctx ?xs ?xs]
    by blast
  moreover have "0 < nat cap" using assms by simp
  ultimately have "matches_acc (scanTranscript cs ww ms ctx cap t) \<noteq> [] \<longleftrightarrow> 0 < ?n"
    by (metis length_greater_0_conv min_less_iff_conj)
  then show ?thesis unfolding some_line_matches .
qed

lemma scanned_terms:
  "termsRecorded (scanTranscript cs ww ms ctx cap t)
   \<and> set (matchedTerms_acc (scanTranscript cs ww ms ctx cap t)) \<subseteq> set ms"
proof -
  let ?st = "scanTranscript cs ww ms ctx cap t"
  have r: "termsRecorded ?st"
    unfolding scanTranscript_lines by (rule termsRecorded_scan [OF termsRecorded_initial])
  have "\<forall>m \<in> set (matches_acc initialScan). set (lineTerms m) \<subseteq> set ms"
    by (simp add: initialScan_def)
  then have "\<forall>m \<in> set (matches_acc ?st). set (lineTerms m) \<subseteq> set ms"
    unfolding scanTranscript_lines by (rule lineTerms_scan)
  then have "(\<Union>m \<in> set (matches_acc ?st). set (lineTerms m)) \<subseteq> set ms" by blast
  then show ?thesis using r by (simp add: termsRecorded_def)
qed

lemma covers_when_enough:
  assumes "length ms \<le> length (matchedTerms_acc (scanTranscript cs ww ms ctx cap t))"
  shows "set (matchedTerms_acc (scanTranscript cs ww ms ctx cap t)) = set ms"
proof -
  let ?mt = "matchedTerms_acc (scanTranscript cs ww ms ctx cap t)"
  have sub: "set ?mt \<subseteq> set ms"
    using scanned_terms [of cs ww ms ctx cap t] by blast
  have "termsRecorded (scanTranscript cs ww ms ctx cap t)"
    using scanned_terms [of cs ww ms ctx cap t] by blast
  then have d: "distinct ?mt" unfolding termsRecorded_def by blast
  have "card (set ms) \<le> length ms" by (rule card_length)
  also have "\<dots> \<le> length ?mt" by (rule assms)
  also have "\<dots> = card (set ?mt)" using d by (simp add: distinct_card)
  finally have "card (set ms) \<le> card (set ?mt)" .
  then show ?thesis using sub by (simp add: card_seteq)
qed

lemma visit_cases:
  assumes "getEpisode dl (fst entry) = Some ep" "length hostIds = 0 \<or> hostid ep \<in> set hostIds"
  shows "visitTranscript dl opts mode ms hostIds entry =
     (let st = scanTranscript (caseSensitive opts) (wholeWord opts) ms (contextLines opts)
                 (maxMatchesPerEpisode opts) (snd entry)
      in if matches_acc st = [] then None
         else if mode = ''all'' \<and> length (matchedTerms_acc st) < length ms then None
         else Some \<lparr>result_episode = ep, matches = matches_acc st,
                    matchSummary = summarize mode st\<rparr>)"
  using assms by (auto simp add: visitTranscript_def Let_def)


subsection \<open>The example transcripts, evaluated\<close>

lemmas regex_defs = termsOnLine_def regexTest_def matchHere_def toLowerCase_def lower_char_def

lemma alpha_lines:
  "termsOnLine False False [''alpha''] ''alpha'' = [''alpha'']"
  "termsOnLine False False [''alpha''] ''x'' = []"
  "termsOnLine False False [''alpha'', ''beta''] ''alpha'' = [''alpha'']"
  "termsOnLine False False [''alpha'', ''beta''] ''beta'' = [''beta'']"
  "termsOnLine False False [''alpha'', ''beta''] ''alpha here'' = [''alpha'']"
  by (simp_all add: regex_defs)

lemma example_lines:
  "splitLines [] (transcriptOf [''alpha here'']) = [''alpha here'']"
  "splitLines [] (transcriptOf [''x'', ''alpha'']) = [''x'', ''alpha'']"
  "splitLines [] (transcriptOf [''alpha'']) = [''alpha'']"
  "splitLines [] (transcriptOf [''alpha'', ''alpha'', ''alpha'', ''alpha'', ''alpha''])
     = [''alpha'', ''alpha'', ''alpha'', ''alpha'', ''alpha'']"
  "splitLines [] (transcriptOf [''alpha'', ''alpha'']) = [''alpha'', ''alpha'']"
  "splitLines [] (transcriptOf [''alpha'', ''alpha'', ''beta'']) = [''alpha'', ''alpha'', ''beta'']"
  by (simp_all add: transcriptOf_def)

lemmas option_defs = termOptions_def default_transcript_options_def matchersOf_def
  effectiveTerms_def resolvedMatchMode_def searchTerms_def explicitTerms_def
  splitQueryTerms_def hasQuery_def resolvedHostIds_def nonEmpty_def trim_def is_space_def
  falsy_num_def falsy_str_def splitOn.simps

lemma alpha_options:
  "effectiveTerms [] (termOptions [''alpha''] ''any'' cap) = [''alpha'']"
  "matchersOf [] (termOptions [''alpha''] ''any'' cap) = [''alpha'']"
  "resolvedMatchMode [] (termOptions [''alpha''] ''any'' cap) = ''any''"
  "resolvedHostIds dl (termOptions [''alpha''] ''any'' cap) = []"
  by (simp_all add: option_defs)

lemma alpha_beta_options:
  "effectiveTerms [] (termOptions [''alpha'', ''beta''] ''any'' cap) = [''alpha'', ''beta'']"
  "matchersOf [] (termOptions [''alpha'', ''beta''] ''any'' cap) = [''alpha'', ''beta'']"
  "resolvedMatchMode [] (termOptions [''alpha'', ''beta''] ''any'' cap) = ''any''"
  "resolvedHostIds dl (termOptions [''alpha'', ''beta''] ''any'' cap) = []"
  "effectiveTerms [] (termOptions [''alpha'', ''beta''] ''all'' cap) = [''alpha'', ''beta'']"
  "matchersOf [] (termOptions [''alpha'', ''beta''] ''all'' cap) = [''alpha'', ''beta'']"
  "resolvedMatchMode [] (termOptions [''alpha'', ''beta''] ''all'' cap) = ''all''"
  "resolvedHostIds dl (termOptions [''alpha'', ''beta''] ''all'' cap) = []"
  by (simp_all add: option_defs)

lemma option_fields:
  "caseSensitive (termOptions ts mode cap) = False"
  "wholeWord (termOptions ts mode cap) = False"
  "contextLines (termOptions ts mode cap) = 3"
  "maxMatchesPerEpisode (termOptions ts mode cap) = cap"
  "limit (termOptions ts mode cap) = 20"
  by (simp_all add: termOptions_def default_transcript_options_def)

lemma episodeA_id: "episode_id episodeA = 1"
  by (simp add: episodeA_def)

lemmas example_defs = alphaOnly_def alphaLate_def alphaFirst_def alphaFive_def alphaTwice_def
  betaLast_def

lemma example_episode:
  "getEpisode alphaOnly 1 = Some episodeA" "getEpisode alphaLate 1 = Some episodeA"
  "getEpisode alphaFirst 1 = Some episodeA" "getEpisode alphaFive 1 = Some episodeA"
  "getEpisode alphaTwice 1 = Some episodeA" "getEpisode betaLast 1 = Some episodeA"
  by (simp_all add: getEpisode_def example_defs episodeA_id)

lemma example_transcripts:
  "transcripts alphaOnly = [(1, transcriptOf [''alpha here''])]"
  "transcripts alphaLate = [(1, transcriptOf [''x'', ''alpha''])]"
  "transcripts alphaFirst = [(1, transcriptOf [''alpha''])]"
  "transcripts alphaFive =
     [(1, transcriptOf [''alpha'', ''alpha'', ''alpha'', ''alpha'', ''alpha''])]"
  "transcripts alphaTwice = [(1, transcriptOf [''alpha'', ''alpha''])]"
  "transcripts betaLast = [(1, transcriptOf [''alpha'', ''alpha'', ''beta''])]"
  by (simp_all add: example_defs)

lemmas transcript_search_defs = searchTranscripts_def visitTranscript_def scanTranscript_def
  scanLines_Cons stepLine_def uniq_def setAdd_def contextOf_def slice_def initialScan_def
  summarize_def shown_def Let_def

lemmas transcript_facts = example_transcripts example_episode example_lines option_fields
  alpha_lines episodeA_id





lemma ex_first_0:
  "shown (searchTranscripts alphaFirst [] (termOptions [''alpha''] ''any'' 0))
   = [(1, [1], [''alpha''], 1, True)]"
  by (simp add: transcript_search_defs transcript_facts alpha_options)

lemma ex_five_2:
  "shown (searchTranscripts alphaFive [] (termOptions [''alpha''] ''any'' 2))
   = [(1, [1, 2], [''alpha''], 2, True)]"
  by (simp add: transcript_search_defs transcript_facts alpha_options)

lemma ex_twice_2:
  "shown (searchTranscripts alphaTwice [] (termOptions [''alpha''] ''any'' 2))
   = [(1, [1, 2], [''alpha''], 2, True)]"
  by (simp add: transcript_search_defs transcript_facts alpha_options)

lemma ex_last_2:
  "shown (searchTranscripts betaLast [] (termOptions [''alpha'', ''beta''] ''all'' 2)) = []"
  by (simp add: transcript_search_defs transcript_facts alpha_beta_options)

lemma ex_last_5:
  "shown (searchTranscripts betaLast [] (termOptions [''alpha'', ''beta''] ''all'' 5))
   = [(1, [1, 2, 3], [''alpha'', ''beta''], 3, False)]"
  by (simp add: transcript_search_defs transcript_facts alpha_beta_options)


subsection \<open>Match modes\<close>

text \<open>
  For a transcript that is scanned (its episode is found and passes the host filter) and a
  cap of at least one: under a mode other than \<open>all\<close> the episode is pushed if and only
  if some line of the transcript matches; under \<open>all\<close> it is pushed if and only if a
  match was recorded and the matched terms are as many as the matchers, and then the terms
  of the recorded matches are all the matchers. The results are the pushed results of the
  transcripts in storage order, up to the limit.
\<close>

lemma any_and_all_modes:
  assumes "getEpisode dl (fst entry) = Some ep" "length hostIds = 0 \<or> hostid ep \<in> set hostIds"
  shows "(mode \<noteq> ''all'' \<longrightarrow>
           (visitTranscript dl opts mode ms hostIds entry \<noteq> None \<longleftrightarrow>
            matches_acc (scanTranscript (caseSensitive opts) (wholeWord opts) ms
              (contextLines opts) (maxMatchesPerEpisode opts) (snd entry)) \<noteq> []))
       \<and> (mode = ''all'' \<longrightarrow>
           (visitTranscript dl opts mode ms hostIds entry \<noteq> None \<longleftrightarrow>
            matches_acc (scanTranscript (caseSensitive opts) (wholeWord opts) ms
              (contextLines opts) (maxMatchesPerEpisode opts) (snd entry)) \<noteq> [] \<and>
            length ms \<le> length (matchedTerms_acc (scanTranscript (caseSensitive opts)
              (wholeWord opts) ms (contextLines opts) (maxMatchesPerEpisode opts) (snd entry)))))
       \<and> (mode = ''all'' \<and> visitTranscript dl opts mode ms hostIds entry \<noteq> None \<longrightarrow>
           (\<Union>m \<in> set (matches_acc (scanTranscript (caseSensitive opts) (wholeWord opts) ms
              (contextLines opts) (maxMatchesPerEpisode opts) (snd entry))). set (lineTerms m))
           = set ms)
       \<and> (1 \<le> maxMatchesPerEpisode opts \<longrightarrow>
           (matches_acc (scanTranscript (caseSensitive opts) (wholeWord opts) ms
              (contextLines opts) (maxMatchesPerEpisode opts) (snd entry)) \<noteq> [] \<longleftrightarrow>
            (\<exists>line \<in> set (splitLines [] (snd entry)).
               lineMatches (caseSensitive opts) (wholeWord opts) ms line)))"
proof -
  let ?st = "scanTranscript (caseSensitive opts) (wholeWord opts) ms (contextLines opts)
              (maxMatchesPerEpisode opts) (snd entry)"
  note v = visit_cases [OF assms, of opts mode ms]
  have a: "mode \<noteq> ''all'' \<longrightarrow>
      (visitTranscript dl opts mode ms hostIds entry \<noteq> None \<longleftrightarrow> matches_acc ?st \<noteq> [])"
    unfolding v by (simp add: Let_def)
  have b: "mode = ''all'' \<longrightarrow>
      (visitTranscript dl opts mode ms hostIds entry \<noteq> None \<longleftrightarrow>
       matches_acc ?st \<noteq> [] \<and> length ms \<le> length (matchedTerms_acc ?st))"
    unfolding v by (auto simp add: Let_def)
  have c: "mode = ''all'' \<and> visitTranscript dl opts mode ms hostIds entry \<noteq> None \<longrightarrow>
      (\<Union>m \<in> set (matches_acc ?st). set (lineTerms m)) = set ms"
  proof
    assume h: "mode = ''all'' \<and> visitTranscript dl opts mode ms hostIds entry \<noteq> None"
    with b have "length ms \<le> length (matchedTerms_acc ?st)" by blast
    then have "set (matchedTerms_acc ?st) = set ms" by (rule covers_when_enough)
    moreover have "termsRecorded ?st"
      using scanned_terms [of "caseSensitive opts" "wholeWord opts" ms "contextLines opts"
          "maxMatchesPerEpisode opts" "snd entry"] by blast
    ultimately show "(\<Union>m \<in> set (matches_acc ?st). set (lineTerms m)) = set ms"
      unfolding termsRecorded_def by simp
  qed
  have d: "1 \<le> maxMatchesPerEpisode opts \<longrightarrow>
      (matches_acc ?st \<noteq> [] \<longleftrightarrow>
       (\<exists>line \<in> set (splitLines [] (snd entry)).
          lineMatches (caseSensitive opts) (wholeWord opts) ms line))"
    using matches_iff_line [of "maxMatchesPerEpisode opts" "caseSensitive opts" "wholeWord opts"
        ms "contextLines opts" "snd entry"] by blast
  show ?thesis by (intro conjI) (rule a, rule b, rule c, rule d)
qed

lemma line_facts:
  "lineMatches False False [''alpha''] ''alpha''"
  "\<not> lineMatches False False [''alpha''] ''x''"
  "lineMatches False False [''alpha'', ''beta''] ''alpha''"
  "lineMatches False False [''alpha'', ''beta''] ''beta''"
  "lineMatches False False [''alpha'', ''beta''] ''alpha here''"
  by (simp_all add: lineMatches_terms alpha_lines)

lemma beta_facts:
  "regexTest False False ''beta'' ''beta''" "regexTest False False ''alpha'' ''alpha''"
  "\<not> regexTest False False ''beta'' ''alpha here''"
  by (simp_all add: regexTest_def matchHere_def toLowerCase_def lower_char_def)


subsection \<open>The cap on the matches of an episode\<close>

text \<open>
  C8, at a cap of zero. With the term ``alpha'', mode \<open>any\<close> and
  \<open>maxMatchesPerEpisode = 0\<close>, the transcript whose only line is ``alpha'' is returned
  with one recorded match, more than the cap: the match is pushed before the cap is
  tested. For comparison, the example of the claim: with a cap of two and five matching
  lines, two matches are returned and the summary is marked truncated.
\<close>

theorem nonpositive_cap_records_a_match:
  "splitLines [] (transcriptOf [''alpha'']) = [''alpha'']
   \<and> lineMatches False False [''alpha''] ''alpha''
   \<and> matchersOf [] (termOptions [''alpha''] ''any'' 0) = [''alpha'']
   \<and> maxMatchesPerEpisode (termOptions [''alpha''] ''any'' 0) = 0
   \<and> shown (searchTranscripts alphaFirst [] (termOptions [''alpha''] ''any'' 0))
       = [(1, [1], [''alpha''], 1, True)]
   \<and> map (\<lambda>r. int (length (matches r)) \<le> 0)
         (searchTranscripts alphaFirst [] (termOptions [''alpha''] ''any'' 0)) = [False]
   \<and> shown (searchTranscripts alphaFive [] (termOptions [''alpha''] ''any'' 2))
       = [(1, [1, 2], [''alpha''], 2, True)]"
proof -
  have m: "map (\<lambda>r. int (length (matches r)) \<le> 0)
         (searchTranscripts alphaFirst [] (termOptions [''alpha''] ''any'' 0)) = [False]"
    by (simp add: transcript_search_defs transcript_facts alpha_options)
  show ?thesis
    by (intro conjI) (rule example_lines, rule line_facts, rule alpha_options,
        rule option_fields, rule ex_first_0, rule m, rule ex_five_2)
qed

subsection \<open>Where the scan stops\<close>

text \<open>
  C10. The scan of a transcript returns on the iteration at whose end the number of
  recorded matches has reached the cap, with the summary marked truncated, whatever lines
  follow; once a scan of the lines \<open>xs\<close> has ended that way, the line numbers and terms of
  the matches and the whole summary are the same for every transcript that continues
  \<open>xs\<close>. For a cap of at least one the number of recorded matches is the smaller of the
  cap and the number of matching lines, and the summary is marked truncated exactly when
  the transcript has at least as many matching lines as the cap, so also when it has
  exactly that many and nothing was left out. With the terms ``alpha'' and ``beta'',
  mode \<open>all\<close> and a cap of two, the transcript with the lines ``alpha'', ``alpha'',
  ``beta'' is not returned although both terms occur in it; with a cap of five it is.
\<close>

theorem scanning_stops_at_cap:
  "(truncated_acc (scanLines cs ww ms ctx cap xs 0 xs initialScan) \<longrightarrow>
      bare (scanLines cs ww ms ctx cap (xs @ ys) 0 (xs @ ys) initialScan)
        = bare (scanLines cs ww ms ctx cap xs 0 xs initialScan)
    \<and> summarize mode (scanLines cs ww ms ctx cap (xs @ ys) 0 (xs @ ys) initialScan)
        = summarize mode (scanLines cs ww ms ctx cap xs 0 xs initialScan))
   \<and> (1 \<le> cap \<longrightarrow>
        length (matches_acc (scanTranscript cs ww ms ctx cap t))
          = min (nat cap) (length (filter (lineMatches cs ww ms) (splitLines [] t)))
      \<and> truncated_acc (scanTranscript cs ww ms ctx cap t)
          = (nat cap \<le> length (filter (lineMatches cs ww ms) (splitLines [] t))))
   \<and> (cap \<le> int (length (matches_acc (stepLine cs ww ms ctx lines index line st))) \<longrightarrow>
        scanLines cs ww ms ctx cap lines index (line # rest) st
          = (stepLine cs ww ms ctx lines index line st)\<lparr>truncated_acc := True\<rparr>)
   \<and> scanTranscript cs ww ms ctx cap t
        = scanLines cs ww ms ctx cap (splitLines [] t) 0 (splitLines [] t) initialScan
   \<and> length (filter (lineMatches False False [''alpha''])
         (splitLines [] (transcriptOf [''alpha'', ''alpha'']))) = 2
   \<and> shown (searchTranscripts alphaTwice [] (termOptions [''alpha''] ''any'' 2))
        = [(1, [1, 2], [''alpha''], 2, True)]
   \<and> splitLines [] (transcriptOf [''alpha'', ''alpha'', ''beta'']) = [''alpha'', ''alpha'', ''beta'']
   \<and> regexTest False False ''alpha'' ''alpha''
   \<and> regexTest False False ''beta'' ''beta''
   \<and> searchTranscripts betaLast [] (termOptions [''alpha'', ''beta''] ''all'' 2) = []
   \<and> shown (searchTranscripts betaLast [] (termOptions [''alpha'', ''beta''] ''all'' 5))
        = [(1, [1, 2, 3], [''alpha'', ''beta''], 3, False)]"
proof -
  have a: "truncated_acc (scanLines cs ww ms ctx cap xs 0 xs initialScan) \<longrightarrow>
      bare (scanLines cs ww ms ctx cap (xs @ ys) 0 (xs @ ys) initialScan)
        = bare (scanLines cs ww ms ctx cap xs 0 xs initialScan)
    \<and> summarize mode (scanLines cs ww ms ctx cap (xs @ ys) 0 (xs @ ys) initialScan)
        = summarize mode (scanLines cs ww ms ctx cap xs 0 xs initialScan)"
  proof
    assume t: "truncated_acc (scanLines cs ww ms ctx cap xs 0 xs initialScan)"
    have b: "bare (scanLines cs ww ms ctx cap (xs @ ys) 0 (xs @ ys) initialScan)
        = bare (scanLines cs ww ms ctx cap xs 0 xs initialScan)"
      by (rule scan_prefix [OF t])
    from summarize_bare [OF b, of mode] b
    show "bare (scanLines cs ww ms ctx cap (xs @ ys) 0 (xs @ ys) initialScan)
        = bare (scanLines cs ww ms ctx cap xs 0 xs initialScan)
    \<and> summarize mode (scanLines cs ww ms ctx cap (xs @ ys) 0 (xs @ ys) initialScan)
        = summarize mode (scanLines cs ww ms ctx cap xs 0 xs initialScan)"
      by blast
  qed
  have b: "1 \<le> cap \<longrightarrow>
        length (matches_acc (scanTranscript cs ww ms ctx cap t))
          = min (nat cap) (length (filter (lineMatches cs ww ms) (splitLines [] t)))
      \<and> truncated_acc (scanTranscript cs ww ms ctx cap t)
          = (nat cap \<le> length (filter (lineMatches cs ww ms) (splitLines [] t)))"
    unfolding scanTranscript_lines
    using scan_count_initial [of cap cs ww ms ctx "splitLines [] t" "splitLines [] t"] by blast
  have c: "cap \<le> int (length (matches_acc (stepLine cs ww ms ctx lines index line st))) \<longrightarrow>
        scanLines cs ww ms ctx cap lines index (line # rest) st
          = (stepLine cs ww ms ctx lines index line st)\<lparr>truncated_acc := True\<rparr>"
    by (simp add: scanLines_Cons)
  have d: "scanTranscript cs ww ms ctx cap t
        = scanLines cs ww ms ctx cap (splitLines [] t) 0 (splitLines [] t) initialScan"
    by (rule scanTranscript_lines)
  have e: "length (filter (lineMatches False False [''alpha''])
         (splitLines [] (transcriptOf [''alpha'', ''alpha'']))) = 2"
    by (simp add: example_lines line_facts)
  have f: "searchTranscripts betaLast [] (termOptions [''alpha'', ''beta''] ''all'' 2) = []"
    using ex_last_2 by (simp add: shown_def)
  show ?thesis
    by (intro conjI) (rule a, rule b, rule c, rule d, rule e, rule ex_twice_2,
        rule example_lines, rule beta_facts, rule beta_facts, rule f, rule ex_last_5)
qed

theorem scanning_stops_at_cap_witness:
  "truncated_acc (scanLines False False [''alpha'', ''beta''] 3 2 [''alpha'', ''alpha''] 0
      [''alpha'', ''alpha''] initialScan)
   \<and> summarize ''all'' (scanLines False False [''alpha'', ''beta''] 3 2
        ([''alpha'', ''alpha''] @ [''beta'']) 0 ([''alpha'', ''alpha''] @ [''beta'']) initialScan)
       = summarize ''all'' (scanLines False False [''alpha'', ''beta''] 3 2
        [''alpha'', ''alpha''] 0 [''alpha'', ''alpha''] initialScan)
   \<and> matchedTerms (summarize ''all'' (scanLines False False [''alpha'', ''beta''] 3 2
        ([''alpha'', ''alpha''] @ [''beta'']) 0 ([''alpha'', ''alpha''] @ [''beta'']) initialScan))
       = [''alpha'']
   \<and> (1::int) \<le> 2
   \<and> length (matches_acc (scanTranscript False False [''alpha''] 3 2
        (transcriptOf [''alpha'', ''alpha'']))) = 2
   \<and> truncated_acc (scanTranscript False False [''alpha''] 3 2
        (transcriptOf [''alpha'', ''alpha'']))
   \<and> (1::int) \<le> int (length (matches_acc
        (stepLine False False [''alpha''] 3 [''alpha'', ''alpha''] 0 ''alpha'' initialScan)))
   \<and> scanLines False False [''alpha''] 3 1 [''alpha'', ''alpha''] 0 (''alpha'' # [''alpha''])
        initialScan
       = (stepLine False False [''alpha''] 3 [''alpha'', ''alpha''] 0 ''alpha'' initialScan)
           \<lparr>truncated_acc := True\<rparr>
   \<and> length (matches_acc (scanLines False False [''alpha''] 3 1 [''alpha'', ''alpha''] 0
        (''alpha'' # [''alpha'']) initialScan)) = 1"
proof -
  note t1 = scanning_stops_at_cap [of False False "[''alpha'', ''beta'']" 3 2
      "[''alpha'', ''alpha'']" "[''beta'']" "''all''" "transcriptOf [''alpha'', ''alpha'']"
      "[''x'', ''alpha'']" 0 "''x''" initialScan "[''alpha'']"]
  note t2 = scanning_stops_at_cap [of False False "[''alpha'']" 3 2
      "[''alpha'', ''alpha'']" "[''beta'']" "''all''" "transcriptOf [''alpha'', ''alpha'']"
      "[''x'', ''alpha'']" 0 "''x''" initialScan "[''alpha'']"]
  note t3 = scanning_stops_at_cap [of False False "[''alpha'']" 3 1
      "[''alpha'', ''alpha'']" "[''beta'']" "''all''" "transcriptOf [''alpha'', ''alpha'']"
      "[''alpha'', ''alpha'']" 0 "''alpha''" initialScan "[''alpha'']"]
  have h1: "truncated_acc (scanLines False False [''alpha'', ''beta''] 3 2 [''alpha'', ''alpha''] 0
      [''alpha'', ''alpha''] initialScan)"
    by (simp add: scanLines_Cons stepLine_def alpha_lines initialScan_def)
  from t1 h1 have r1: "summarize ''all'' (scanLines False False [''alpha'', ''beta''] 3 2
        ([''alpha'', ''alpha''] @ [''beta'']) 0 ([''alpha'', ''alpha''] @ [''beta'']) initialScan)
       = summarize ''all'' (scanLines False False [''alpha'', ''beta''] 3 2
        [''alpha'', ''alpha''] 0 [''alpha'', ''alpha''] initialScan)"
    by blast
  have r2: "matchedTerms (summarize ''all'' (scanLines False False [''alpha'', ''beta''] 3 2
        ([''alpha'', ''alpha''] @ [''beta'']) 0 ([''alpha'', ''alpha''] @ [''beta'']) initialScan))
       = [''alpha'']"
    unfolding r1
    by (simp add: scanLines_Cons stepLine_def alpha_lines initialScan_def summarize_def
        setAdd_def)
  have h2: "(1::int) \<le> 2" by simp
  have n: "length (filter (lineMatches False False [''alpha''])
      (splitLines [] (transcriptOf [''alpha'', ''alpha'']))) = 2"
    by (simp add: example_lines line_facts)
  from t2 h2 have "length (matches_acc (scanTranscript False False [''alpha''] 3 2
        (transcriptOf [''alpha'', ''alpha''])))
      = min (nat 2) (length (filter (lineMatches False False [''alpha''])
          (splitLines [] (transcriptOf [''alpha'', ''alpha'']))))"
    and "truncated_acc (scanTranscript False False [''alpha''] 3 2
        (transcriptOf [''alpha'', ''alpha'']))
      = (nat 2 \<le> length (filter (lineMatches False False [''alpha''])
          (splitLines [] (transcriptOf [''alpha'', ''alpha'']))))"
    by blast+
  then have r3: "length (matches_acc (scanTranscript False False [''alpha''] 3 2
        (transcriptOf [''alpha'', ''alpha'']))) = 2"
    and r4: "truncated_acc (scanTranscript False False [''alpha''] 3 2
        (transcriptOf [''alpha'', ''alpha'']))"
    unfolding n by simp_all
  have h3: "(1::int) \<le> int (length (matches_acc
        (stepLine False False [''alpha''] 3 [''alpha'', ''alpha''] 0 ''alpha'' initialScan)))"
    by (simp add: stepLine_def alpha_lines initialScan_def)
  from t3 h3 have r5: "scanLines False False [''alpha''] 3 1 [''alpha'', ''alpha''] 0
        (''alpha'' # [''alpha'']) initialScan
       = (stepLine False False [''alpha''] 3 [''alpha'', ''alpha''] 0 ''alpha'' initialScan)
           \<lparr>truncated_acc := True\<rparr>"
    by blast
  have r6: "length (matches_acc (scanLines False False [''alpha''] 3 1 [''alpha'', ''alpha''] 0
        (''alpha'' # [''alpha'']) initialScan)) = 1"
    unfolding r5 by (simp add: stepLine_def alpha_lines initialScan_def)
  show ?thesis
    by (intro conjI) (rule h1, rule r1, rule r2, rule h2, rule r3, rule r4, rule h3, rule r5,
        rule r6)
qed

end
